theory Spec2Isabelle
  imports Main "HOL-Library.Multiset" "HOL-Library.Sublist"
begin

section \<open>JavaScript values and strings\<close>

text \<open>
  The scripts are browser JavaScript. Strings are modelled as \<open>string\<close>, one \<open>char\<close>
  per code unit in the Latin-1 range; the values that reach the functions below come from
  parsed JSON or from form fields, so a value is \<open>undefined\<close>, \<open>null\<close>, a boolean, a
  number, a string, an array of values or a plain object.

  The code below never calculates with a number it was sent: it tests it for truth and
  converts it to a string. A number is therefore represented by the string that
  \<open>Number.prototype.toString\<close> gives for it, \<open>JNum ''1985''\<close>, \<open>JNum ''0.5''\<close> or
  \<open>JNum ''1e+21''\<close>; both zeros give \<open>0\<close> and not-a-number gives \<open>NaN\<close>, and these
  are the numbers that count as false.
\<close>

datatype js_value =
    JUndefined | JNull | JBool bool | JNum string | JStr string
  | JArray "js_value list" | JObject

text \<open>JavaScript truthiness (\<open>!text\<close>, \<open>a || b\<close>, \<open>a && b\<close>).\<close>

fun truthy :: "js_value \<Rightarrow> bool" where
  "truthy JUndefined = False"
| "truthy JNull = False"
| "truthy (JBool b) = b"
| "truthy (JNum n) = (n \<noteq> ''0'' \<and> n \<noteq> ''NaN'')"
| "truthy (JStr s) = (s \<noteq> [])"
| "truthy (JArray vs) = True"
| "truthy JObject = True"

text \<open>
  The decimal digits of a count or of a string's length, as a template literal prints
  them (such numbers stay far below the size at which JavaScript changes to the
  exponent form).
\<close>

definition digit_char :: "nat \<Rightarrow> char" where
  "digit_char d = char_of (48 + d)"

fun nat_to_string :: "nat \<Rightarrow> string" where
  "nat_to_string n =
     (if n < 10 then [digit_char n] else nat_to_string (n div 10) @ [digit_char (n mod 10)])"

declare nat_to_string.simps [simp del]

text \<open>\<open>xs.join(sep)\<close> for an array of strings.\<close>

fun join_with :: "string \<Rightarrow> string list \<Rightarrow> string" where
  "join_with sep [] = []"
| "join_with sep [x] = x"
| "join_with sep (x # y # ys) = x @ sep @ join_with sep (y # ys)"

text \<open>
  \<open>String(v)\<close>, the conversion a template literal or a DOM text setter applies. An
  array is joined with commas, its \<open>undefined\<close> and \<open>null\<close> elements giving the
  empty string; a plain object (one with no \<open>toString\<close> property of its own) gives
  \<open>[object Object]\<close>.
\<close>

fun to_string :: "js_value \<Rightarrow> string" where
  "to_string JUndefined = ''undefined''"
| "to_string JNull = ''null''"
| "to_string (JBool b) = (if b then ''true'' else ''false'')"
| "to_string (JNum n) = n"
| "to_string (JStr s) = s"
| "to_string (JArray vs) =
     join_with '','' (map (\<lambda>v. if v = JUndefined \<or> v = JNull then [] else to_string v) vs)"
| "to_string JObject = ''[object Object]''"

section \<open>export.js: escapeHtml\<close>








section \<open>MediaLinker: reordering the linked media\<close>

text \<open>
  A JavaScript array slot is a hole, the value \<open>undefined\<close>, or an element. Reading
  outside the array (or a hole) gives \<open>undefined\<close>; writing at or beyond the length
  extends the array with holes; a negative index names a property, not an element, so
  a write there leaves the elements alone and a read gives \<open>undefined\<close> (the swaps below
  read both operands before they write).
\<close>

datatype 'a slot = Hole | Undefined | Val 'a

type_synonym 'a js_array = "'a slot list"

definition js_get :: "'a js_array \<Rightarrow> int \<Rightarrow> 'a slot" where
  "js_get a i =
     (if 0 \<le> i \<and> i < int (length a)
      then (case a ! nat i of Hole \<Rightarrow> Undefined | v \<Rightarrow> v)
      else Undefined)"

definition js_set :: "'a js_array \<Rightarrow> int \<Rightarrow> 'a slot \<Rightarrow> 'a js_array" where
  "js_set a i v =
     (if i < 0 then a
      else if nat i < length a then a[nat i := v]
      else a @ replicate (nat i - length a) Hole @ [v])"

text \<open>\<open>[...a]\<close>: a copy in which every hole has become \<open>undefined\<close>.\<close>

definition spread :: "'a js_array \<Rightarrow> 'a js_array" where
  "spread a = map (\<lambda>s. case s of Hole \<Rightarrow> Undefined | v \<Rightarrow> v) a"

text \<open>\<open>[a[i], a[j]] = [a[j], a[i]]\<close>: both reads, then the write to \<open>i\<close>, then to \<open>j\<close>.\<close>

definition swap_slots :: "'a js_array \<Rightarrow> int \<Rightarrow> int \<Rightarrow> 'a js_array" where
  "swap_slots a i j = js_set (js_set a i (js_get a j)) j (js_get a i)"

text \<open>An array as the server's JSON gives it: every slot an element.\<close>

definition dense :: "'a list \<Rightarrow> 'a js_array" where
  "dense xs = map Val xs"

record media =
  media_id :: int
  filename :: string

text \<open>
  What an awaited \<open>fetch(...)\<close> followed by \<open>response.json()\<close> gives the caller:
  \<open>Rejected\<close> when either promise rejects or the body is \<open>null\<close> (the handler's
  \<open>catch\<close> runs), \<open>Replied d\<close> when the body parsed to \<open>d\<close>.
\<close>

datatype 'b fetch_outcome = Rejected | Replied 'b

record linker =
  memoryId :: int
  linkedMedia :: "media js_array"
  reorder_requests :: "(int \<times> int option list) list"
  console_errors :: "string list"
  onUpdate_calls :: nat

text \<open>
  \<open>newOrder.map(m => m.id)\<close>: the callback skips holes and throws a TypeError on
  \<open>undefined\<close>.
\<close>

definition map_ids :: "media js_array \<Rightarrow> int option list option" where
  "map_ids a =
     (if Undefined \<in> set a then None
      else Some (map (\<lambda>s. case s of Val m \<Rightarrow> Some (media_id m) | _ \<Rightarrow> None) a))"

text \<open>
  \<open>handleReorder\<close>: the whole body is inside \<open>try\<close>, so a TypeError from the map is
  caught before any request is made. The reply carries \<open>data.success\<close>.
\<close>

definition handleReorder :: "media js_array \<Rightarrow> bool fetch_outcome \<Rightarrow> linker \<Rightarrow> linker" where
  "handleReorder newOrder resp s =
     (case map_ids newOrder of
        None \<Rightarrow> s\<lparr>console_errors := console_errors s @ [''Error reordering media:'']\<rparr>
      | Some mediaIds \<Rightarrow>
          (let s1 = s\<lparr>reorder_requests := reorder_requests s @ [(memoryId s, mediaIds)]\<rparr>
           in case resp of
                Rejected \<Rightarrow> s1\<lparr>console_errors := console_errors s1 @ [''Error reordering media:'']\<rparr>
              | Replied success \<Rightarrow>
                  if success
                  then s1\<lparr>linkedMedia := newOrder, onUpdate_calls := Suc (onUpdate_calls s1)\<rparr>
                  else s1))"

definition moveUp :: "int \<Rightarrow> bool fetch_outcome \<Rightarrow> linker \<Rightarrow> linker" where
  "moveUp index resp s =
     (if index = 0 then s
      else handleReorder (swap_slots (spread (linkedMedia s)) (index - 1) index) resp s)"

definition moveDown :: "int \<Rightarrow> bool fetch_outcome \<Rightarrow> linker \<Rightarrow> linker" where
  "moveDown index resp s =
     (if index = int (length (linkedMedia s)) - 1 then s
      else handleReorder (swap_slots (spread (linkedMedia s)) index (index + 1)) resp s)"

lemma spread_dense: "spread (dense xs) = dense xs"
  by (simp add: spread_def dense_def)

lemma length_dense [simp]: "length (dense xs) = length xs"
  by (simp add: dense_def)

lemma Undefined_notin_dense [simp]: "Undefined \<notin> set (dense xs)"
  by (auto simp add: dense_def)

lemma js_get_dense:
  "js_get (dense xs) (int n) = (if n < length xs then Val (xs ! n) else Undefined)"
  by (simp add: js_get_def dense_def)

lemma js_get_negative: "i < 0 \<Longrightarrow> js_get a i = Undefined"
  by (simp add: js_get_def)

lemma js_set_in: "n < length a \<Longrightarrow> js_set a (int n) v = a[n := v]"
  by (simp add: js_set_def)

lemma js_set_negative: "i < 0 \<Longrightarrow> js_set a i v = a"
  by (simp add: js_set_def)

lemma js_set_nth_same:
  "n < length (js_set a (int n) v) \<and> js_set a (int n) v ! n = v"
  by (simp add: js_set_def nth_append)

lemma js_set_nth_other:
  "k < length a \<Longrightarrow> k \<noteq> n \<Longrightarrow>
     k < length (js_set a (int n) v) \<and> js_set a (int n) v ! k = a ! k"
  by (simp add: js_set_def nth_append)

lemma swap_in_range:
  assumes "i < length xs" "j < length xs"
  shows "swap_slots (dense xs) (int i) (int j) = dense ((xs[i := xs ! j])[j := xs ! i])"
proof -
  have "swap_slots (dense xs) (int i) (int j) = ((dense xs)[i := Val (xs ! j)])[j := Val (xs ! i)]"
    using assms by (simp add: swap_slots_def js_set_in js_get_dense)
  then show ?thesis by (simp add: dense_def map_update)
qed

lemma swap_negative: "i < 0 \<Longrightarrow> j < 0 \<Longrightarrow> swap_slots a i j = a"
  by (simp add: swap_slots_def js_set_def)

lemma swap_undefined_left:
  assumes "n \<noteq> m" "js_get a (int m) = Undefined"
  shows "Undefined \<in> set (swap_slots a (int n) (int m))"
proof -
  let ?b = "js_set a (int n) Undefined"
  have b: "n < length ?b \<and> ?b ! n = Undefined" by (rule js_set_nth_same)
  then have "n < length (js_set ?b (int m) (js_get a (int n)))
      \<and> js_set ?b (int m) (js_get a (int n)) ! n = ?b ! n"
    using assms(1) js_set_nth_other [of n ?b m] by simp
  with b have "n < length (swap_slots a (int n) (int m))
      \<and> swap_slots a (int n) (int m) ! n = Undefined"
    by (simp add: swap_slots_def assms(2))
  then show ?thesis by (metis nth_mem)
qed

lemma swap_undefined_right:
  assumes "js_get a i = Undefined"
  shows "Undefined \<in> set (swap_slots a i (int m))"
proof -
  have "m < length (swap_slots a i (int m)) \<and> swap_slots a i (int m) ! m = Undefined"
    using js_set_nth_same [of m "js_set a i (js_get a (int m))" Undefined]
    by (simp add: swap_slots_def assms)
  then show ?thesis by (metis nth_mem)
qed

lemma handleReorder_linkedMedia:
  "linkedMedia (handleReorder newOrder resp s) =
     (if Undefined \<notin> set newOrder \<and> resp = Replied True then newOrder else linkedMedia s)"
  by (cases resp) (simp_all add: handleReorder_def map_ids_def Let_def)

lemma handleReorder_requests:
  "reorder_requests (handleReorder (dense ys) resp s) =
     reorder_requests s @ [(memoryId s, map (\<lambda>m. Some (media_id m)) ys)]"
  by (cases resp) (auto simp add: handleReorder_def map_ids_def Let_def dense_def comp_def)

lemma mset_dense_swap:
  "i < length xs \<Longrightarrow> j < length xs \<Longrightarrow>
   mset (dense ((xs[i := xs ! j])[j := xs ! i])) = mset (dense xs)"
  by (simp add: dense_def mset_swap)

text \<open>
  Swapping two different positions of a dense array either is a transposition of two
  elements or leaves an \<open>undefined\<close> in the array (an index was out of range).
\<close>

lemma swap_dense_cases:
  assumes "i \<noteq> j"
  shows "Undefined \<in> set (swap_slots (dense xs) i j)
       \<or> mset (swap_slots (dense xs) i j) = mset (dense xs)"
proof -
  consider (neg) "i < 0" "j < 0" | (ineg) "i < 0" "0 \<le> j" | (jneg) "0 \<le> i" "j < 0"
    | (nonneg) "0 \<le> i" "0 \<le> j" by linarith
  then show ?thesis
  proof cases
    case neg
    then show ?thesis by (simp add: swap_negative)
  next
    case ineg
    then obtain m where "j = int m" using nonneg_int_cases by blast
    with ineg show ?thesis using swap_undefined_right [of "dense xs" i m]
      by (simp add: js_get_negative)
  next
    case jneg
    then obtain n where n: "i = int n" using nonneg_int_cases by blast
    have "n < length (js_set (dense xs) (int n) (js_get (dense xs) j))
        \<and> js_set (dense xs) (int n) (js_get (dense xs) j) ! n = js_get (dense xs) j"
      by (rule js_set_nth_same)
    with jneg n have "n < length (swap_slots (dense xs) i j)
        \<and> swap_slots (dense xs) i j ! n = Undefined"
      by (simp add: swap_slots_def js_set_negative js_get_negative)
    then show ?thesis by (metis nth_mem)
  next
    case nonneg
    then obtain n m where nm: "i = int n" "j = int m" using nonneg_int_cases by metis
    show ?thesis
    proof (cases "n < length xs \<and> m < length xs")
      case True
      then show ?thesis using nm by (simp add: swap_in_range mset_dense_swap)
    next
      case False
      then consider "length xs \<le> m" | "m < length xs" "length xs \<le> n" by linarith
      then show ?thesis
      proof cases
        case 1
        then have "js_get (dense xs) (int m) = Undefined" by (simp add: js_get_dense)
        then show ?thesis using nm assms swap_undefined_left [of n m "dense xs"] by simp
      next
        case 2
        then have "js_get (dense xs) (int n) = Undefined" by (simp add: js_get_dense)
        then show ?thesis using nm swap_undefined_right [of "dense xs" "int n" m] by simp
      qed
    qed
  qed
qed

lemma moveUp_mset:
  assumes "linkedMedia s = dense xs"
  shows "mset (linkedMedia (moveUp i resp s)) = mset (linkedMedia s)"
proof (cases "i = 0")
  case True
  then show ?thesis by (simp add: moveUp_def)
next
  case False
  have "i - 1 \<noteq> i" by simp
  from swap_dense_cases [OF this, of xs] show ?thesis
    using False assms by (auto simp add: moveUp_def spread_dense handleReorder_linkedMedia)
qed

lemma moveDown_mset:
  assumes "linkedMedia s = dense xs"
  shows "mset (linkedMedia (moveDown i resp s)) = mset (linkedMedia s)"
proof -
  have "i \<noteq> i + 1" by simp
  from swap_dense_cases [OF this, of xs] show ?thesis
    using assms by (auto simp add: moveDown_def spread_dense handleReorder_linkedMedia)
qed

lemma moveUp_swaps:
  assumes "linkedMedia s = dense xs" "0 < k" "k < length xs"
  shows "moveUp (int k) resp s =
           handleReorder (dense ((xs[k - 1 := xs ! k])[k := xs ! (k - 1)])) resp s"
proof -
  have e: "int k - 1 = int (k - 1)" using assms(2) by simp
  have "swap_slots (dense xs) (int k - 1) (int k)
          = dense ((xs[k - 1 := xs ! k])[k := xs ! (k - 1)])"
    unfolding e using assms(2,3) by (intro swap_in_range) simp_all
  then show ?thesis using assms(1,2)
    by (simp add: moveUp_def spread_dense)
qed

lemma moveDown_swaps:
  assumes "linkedMedia s = dense xs" "Suc k < length xs"
  shows "moveDown (int k) resp s =
           handleReorder (dense ((xs[k := xs ! Suc k])[Suc k := xs ! k])) resp s"
proof -
  have e: "int k + 1 = int (Suc k)" by simp
  have g: "int k \<noteq> int (length xs) - 1" using assms(2) by linarith
  have "swap_slots (dense xs) (int k) (int k + 1)
          = dense ((xs[k := xs ! Suc k])[Suc k := xs ! k])"
    unfolding e using assms(2) by (intro swap_in_range) simp_all
  then show ?thesis using assms(1) g
    by (simp add: moveDown_def spread_dense)
qed

text \<open>
  Claim C5. Let the linked media be the list \<open>xs\<close>. For every index \<open>i\<close> and every
  outcome of the reorder request, the list held after \<open>moveUp i\<close> and after
  \<open>moveDown i\<close> has the same multiset of entries. For \<open>0 < k < length xs\<close>,
  \<open>moveUp k\<close> requests the order with the entries at \<open>k - 1\<close> and \<open>k\<close> exchanged and
  holds it once the server accepts; for \<open>k + 1 < length xs\<close>, \<open>moveDown k\<close> does so for
  the entries at \<open>k\<close> and \<open>k + 1\<close>. \<open>moveUp 0\<close> and \<open>moveDown\<close> of the last index
  return the state as it was, with no request.
\<close>

theorem moveUp_moveDown_permute:
  assumes "linkedMedia s = dense xs"
  shows "mset (linkedMedia (moveUp i resp s)) = mset (dense xs)
       \<and> mset (linkedMedia (moveDown i resp s)) = mset (dense xs)
       \<and> (0 < k \<and> k < length xs \<longrightarrow>
            linkedMedia (moveUp (int k) (Replied True) s)
              = dense ((xs[k - 1 := xs ! k])[k := xs ! (k - 1)])
          \<and> reorder_requests (moveUp (int k) resp s)
              = reorder_requests s
                @ [(memoryId s, map (\<lambda>m. Some (media_id m)) ((xs[k - 1 := xs ! k])[k := xs ! (k - 1)]))])
       \<and> (Suc k < length xs \<longrightarrow>
            linkedMedia (moveDown (int k) (Replied True) s)
              = dense ((xs[k := xs ! Suc k])[Suc k := xs ! k])
          \<and> reorder_requests (moveDown (int k) resp s)
              = reorder_requests s
                @ [(memoryId s, map (\<lambda>m. Some (media_id m)) ((xs[k := xs ! Suc k])[Suc k := xs ! k]))])
       \<and> moveUp 0 resp s = s
       \<and> moveDown (int (length xs) - 1) resp s = s"
proof -
  have up: "mset (linkedMedia (moveUp i resp s)) = mset (dense xs)"
    using moveUp_mset [OF assms] assms by simp
  have down: "mset (linkedMedia (moveDown i resp s)) = mset (dense xs)"
    using moveDown_mset [OF assms] assms by simp
  have upk: "0 < k \<and> k < length xs \<longrightarrow>
            linkedMedia (moveUp (int k) (Replied True) s)
              = dense ((xs[k - 1 := xs ! k])[k := xs ! (k - 1)])
          \<and> reorder_requests (moveUp (int k) resp s)
              = reorder_requests s
                @ [(memoryId s, map (\<lambda>m. Some (media_id m)) ((xs[k - 1 := xs ! k])[k := xs ! (k - 1)]))]"
    using moveUp_swaps [OF assms]
    by (simp add: handleReorder_linkedMedia handleReorder_requests)
  have downk: "Suc k < length xs \<longrightarrow>
            linkedMedia (moveDown (int k) (Replied True) s)
              = dense ((xs[k := xs ! Suc k])[Suc k := xs ! k])
          \<and> reorder_requests (moveDown (int k) resp s)
              = reorder_requests s
                @ [(memoryId s, map (\<lambda>m. Some (media_id m)) ((xs[k := xs ! Suc k])[Suc k := xs ! k]))]"
    using moveDown_swaps [OF assms]
    by (simp add: handleReorder_linkedMedia handleReorder_requests)
  have first: "moveUp 0 resp s = s" by (simp add: moveUp_def)
  have last: "moveDown (int (length xs) - 1) resp s = s"
    using assms by (simp add: moveDown_def)
  from up down upk downk first last show ?thesis by blast
qed

definition photo_a :: media where
  "photo_a = \<lparr>media_id = 11, filename = ''a.jpg''\<rparr>"

definition photo_b :: media where
  "photo_b = \<lparr>media_id = 12, filename = ''b.jpg''\<rparr>"

definition photo_c :: media where
  "photo_c = \<lparr>media_id = 13, filename = ''c.jpg''\<rparr>"

definition linker_abc :: linker where
  "linker_abc = \<lparr>memoryId = 7, linkedMedia = dense [photo_a, photo_b, photo_c],
     reorder_requests = [], console_errors = [], onUpdate_calls = 0\<rparr>"

theorem moveUp_moveDown_permute_witness:
  "linkedMedia linker_abc = dense [photo_a, photo_b, photo_c]
   \<and> linkedMedia (moveUp 1 (Replied True) linker_abc) = dense [photo_b, photo_a, photo_c]
   \<and> reorder_requests (moveUp 1 Rejected linker_abc) = [(7, [Some 12, Some 11, Some 13])]
   \<and> linkedMedia (moveDown 1 (Replied True) linker_abc) = dense [photo_a, photo_c, photo_b]
   \<and> mset (linkedMedia (moveUp 5 (Replied True) linker_abc)) = mset (dense [photo_a, photo_b, photo_c])
   \<and> moveDown 2 (Replied True) linker_abc = linker_abc"
proof -
  have h: "linkedMedia linker_abc = dense [photo_a, photo_b, photo_c]"
    by (simp add: linker_abc_def)
  have a: "1 = int (Suc 0)" by simp
  show ?thesis
    using moveUp_moveDown_permute [OF h, of 5 "Replied True" 1]
          moveUp_moveDown_permute [OF h, of 5 Rejected 1] h
    by (simp add: linker_abc_def photo_a_def photo_b_def photo_c_def)
qed

section \<open>timeline.js: the search filter of loadMemoriesWithSearch\<close>

text \<open>
  \<open>String.prototype.toLowerCase\<close> on the Latin-1 code units: the upper-case letters
  \<open>A\<close>--\<open>Z\<close> and U+00C0--U+00DE (without the multiplication sign U+00D7) move
  up by 32.
\<close>

definition to_lower_char :: "char \<Rightarrow> char" where
  "to_lower_char c =
     (let n = of_char c :: nat
      in if (65 \<le> n \<and> n \<le> 90) \<or> (192 \<le> n \<and> n \<le> 214) \<or> (216 \<le> n \<and> n \<le> 222)
         then char_of (n + 32) else c)"

definition toLowerCase :: "string \<Rightarrow> string" where
  "toLowerCase s = map to_lower_char s"


text \<open>
  An element of the fetched list, by the three properties the filter reads; a property
  the element does not have is \<open>JUndefined\<close>. (An element that is \<open>null\<close> or no object
  at all behaves as one whose \<open>text\<close> is \<open>undefined\<close>: reading its \<open>text\<close> throws, or
  gives \<open>undefined\<close>, on which the call of \<open>toLowerCase\<close> throws.)
\<close>

text \<open>
  The year of a memory is the one value whose \<open>toString\<close> the filter calls. Parsed
  JSON holds no function, so for an object that carries an entry named \<open>toString\<close> of
  its own the call throws, and so does the joining of an array that holds such an
  object. \<open>YearNoToString\<close> stands for these values, which all count as true; every
  other year is a \<open>js_value\<close>.
\<close>

datatype year_value = Year js_value | YearNoToString

record memory =
  m_id :: js_value
  m_text :: js_value
  m_category :: js_value
  m_year :: year_value













lemma toLowerCase_Nil_iff [simp]: "toLowerCase t = [] \<longleftrightarrow> t = []"
  by (simp add: toLowerCase_def)











section \<open>capture.js: saveMemory\<close>

text \<open>
  \<open>String.prototype.trim\<close> removes white space and line terminators from both ends; in
  the Latin-1 range these are TAB, LF, VT, FF, CR, space and the no-break space.
\<close>

definition is_js_space :: "char \<Rightarrow> bool" where
  "is_js_space c = ((of_char c :: nat) \<in> {9, 10, 11, 12, 13, 32, 160})"

definition trim :: "string \<Rightarrow> string" where
  "trim s = rev (dropWhile is_js_space (rev (dropWhile is_js_space s)))"

text \<open>
  The parsed body of a reply, as the handlers read it: \<open>data.status\<close> and
  \<open>data.message\<close> (\<open>JUndefined\<close> for a field the body does not have).
\<close>

record api_reply =
  reply_status :: js_value
  reply_message :: js_value

record request =
  req_method :: string
  req_url :: string
  req_text :: string
  req_date :: string

datatype button_label = SaveMemoryLabel | UpdateMemoryLabel

text \<open>
  The part of the page \<open>saveMemory\<close> reads and writes: the two form fields, the
  \<open>data-editing-id\<close> attribute of the text area, the save button (if the page has
  one), the edit notice, the active tab, and the logs of what the function did to the
  outside: alerts shown, requests sent, timeline reloads started.
\<close>

record capture_page =
  memory_text_value :: string
  memory_date_value :: string
  editingId :: "string option"
  save_button :: "button_label option"
  edit_notice :: bool
  active_tab :: string
  alerts :: "string list"
  sent :: "request list"
  timeline_loads :: nat

text \<open>
  \<open>showTab('timeline')\<close> makes the timeline the active tab and calls
  \<open>loadMemories\<close>.
\<close>

definition showTab_timeline :: "capture_page \<Rightarrow> capture_page" where
  "showTab_timeline s = s\<lparr>active_tab := ''timeline'', timeline_loads := Suc (timeline_loads s)\<rparr>"

definition saveMemory :: "api_reply fetch_outcome \<Rightarrow> capture_page \<Rightarrow> capture_page" where
  "saveMemory resp s =
     (let text = trim (memory_text_value s);
          date = trim (memory_date_value s)
      in if text = [] then s\<lparr>alerts := alerts s @ [''Please write a memory before saving'']\<rparr>
         else
           (let isEditing = (editingId s \<noteq> None);
                req = (case editingId s of
                         Some eid \<Rightarrow> \<lparr>req_method = ''PUT'', req_url = ''/api/memories/'' @ eid,
                                      req_text = text, req_date = date\<rparr>
                       | None \<Rightarrow> \<lparr>req_method = ''POST'', req_url = ''/api/memories/save'',
                                   req_text = text, req_date = date\<rparr>);
                s1 = s\<lparr>sent := sent s @ [req]\<rparr>
            in case resp of
                 Rejected \<Rightarrow> s1\<lparr>alerts := alerts s1 @ [''Failed to save memory. Please try again.'']\<rparr>
               | Replied data \<Rightarrow>
                   if reply_status data = JStr ''success'' then
                     showTab_timeline
                       (s1\<lparr>alerts := alerts s1 @ [if isEditing then ''Memory updated!'' else ''Memory saved!''],
                           memory_text_value := [],
                           memory_date_value := [],
                           editingId := None,
                           save_button := map_option (\<lambda>_. SaveMemoryLabel) (save_button s1),
                           edit_notice := False,
                           timeline_loads := Suc (timeline_loads s1)\<rparr>)
                   else s1\<lparr>alerts := alerts s1 @ [''Error: '' @ to_string (reply_message data)]\<rparr>))"

text \<open>
  An error reply to the save request: the fetch or the parse failed, or the parsed
  body's \<open>status\<close> is not the string \<open>success\<close>.
\<close>

definition is_error_reply :: "api_reply fetch_outcome \<Rightarrow> bool" where
  "is_error_reply resp =
     (case resp of Rejected \<Rightarrow> True | Replied data \<Rightarrow> reply_status data \<noteq> JStr ''success'')"

definition is_error_alert :: "string \<Rightarrow> bool" where
  "is_error_alert a = (a = ''Failed to save memory. Please try again.'' \<or> prefix ''Error: '' a)"

text \<open>
  Claim C10. When the trimmed memory text is empty, \<open>saveMemory\<close> sends no request and
  changes nothing but the alerts: the state after the call is the state before with the
  one alert added, so the form fields, the editing marker and the active tab are as
  they were.
\<close>

theorem saveMemory_empty_text:
  assumes "trim (memory_text_value s) = []"
  shows "saveMemory resp s = s\<lparr>alerts := alerts s @ [''Please write a memory before saving'']\<rparr>
       \<and> sent (saveMemory resp s) = sent s
       \<and> memory_text_value (saveMemory resp s) = memory_text_value s
       \<and> memory_date_value (saveMemory resp s) = memory_date_value s
       \<and> editingId (saveMemory resp s) = editingId s
       \<and> active_tab (saveMemory resp s) = active_tab s"
  using assms by (simp add: saveMemory_def)

definition blank_form :: capture_page where
  "blank_form = \<lparr>memory_text_value = ''   '', memory_date_value = ''1973'', editingId = Some ''4'',
     save_button = Some UpdateMemoryLabel, edit_notice = True, active_tab = ''capture'',
     alerts = [], sent = [], timeline_loads = 0\<rparr>"

theorem saveMemory_empty_text_witness:
  "trim (memory_text_value blank_form) = []
   \<and> saveMemory Rejected blank_form
       = blank_form\<lparr>alerts := [''Please write a memory before saving'']\<rparr>
   \<and> sent (saveMemory Rejected blank_form) = []"
proof -
  have h: "trim (memory_text_value blank_form) = []" by code_simp
  have a: "alerts blank_form = []" "sent blank_form = []" by (simp_all add: blank_form_def)
  show ?thesis using saveMemory_empty_text [OF h, of Rejected] h a by simp
qed

text \<open>
  Claim C2. With a non-empty memory text and no memory being edited, the request is
  the POST to \<open>/api/memories/save\<close>. If its reply is an error, the two form fields are
  as before and exactly one alert, an error alert, has been shown; if it is not, both
  fields are empty. So the form is cleared only on a success reply.
\<close>

theorem saveMemory_error_keeps_form:
  assumes "trim (memory_text_value s) \<noteq> []" and "editingId s = None"
  shows "sent (saveMemory resp s)
           = sent s @ [\<lparr>req_method = ''POST'', req_url = ''/api/memories/save'',
                        req_text = trim (memory_text_value s), req_date = trim (memory_date_value s)\<rparr>]
       \<and> (is_error_reply resp \<longrightarrow>
             memory_text_value (saveMemory resp s) = memory_text_value s
           \<and> memory_date_value (saveMemory resp s) = memory_date_value s
           \<and> (\<exists>a. alerts (saveMemory resp s) = alerts s @ [a] \<and> is_error_alert a))
       \<and> (\<not> is_error_reply resp \<longrightarrow>
             memory_text_value (saveMemory resp s) = []
           \<and> memory_date_value (saveMemory resp s) = []
           \<and> alerts (saveMemory resp s) = alerts s @ [''Memory saved!''])"
  using assms
  by (cases resp)
     (simp_all add: saveMemory_def Let_def is_error_reply_def is_error_alert_def showTab_timeline_def)

definition filled_form :: capture_page where
  "filled_form = \<lparr>memory_text_value = '' My first job '', memory_date_value = ''1973'',
     editingId = None, save_button = Some SaveMemoryLabel, edit_notice = False,
     active_tab = ''capture'', alerts = [], sent = [], timeline_loads = 0\<rparr>"

definition server_error_reply :: "api_reply fetch_outcome" where
  "server_error_reply = Replied \<lparr>reply_status = JStr ''error'', reply_message = JStr ''Database locked''\<rparr>"

theorem saveMemory_error_keeps_form_witness:
  "trim (memory_text_value filled_form) \<noteq> [] \<and> editingId filled_form = None
   \<and> is_error_reply server_error_reply
   \<and> memory_text_value (saveMemory server_error_reply filled_form) = '' My first job ''
   \<and> memory_date_value (saveMemory server_error_reply filled_form) = ''1973''
   \<and> alerts (saveMemory server_error_reply filled_form) = [''Error: Database locked'']"
proof -
  have h1: "trim (memory_text_value filled_form) \<noteq> []" by code_simp
  have h2: "editingId filled_form = None" by (simp add: filled_form_def)
  have e: "is_error_reply server_error_reply"
    by (simp add: is_error_reply_def server_error_reply_def)
  have v: "memory_text_value filled_form = '' My first job ''"
    "memory_date_value filled_form = ''1973''"
    by (simp_all add: filled_form_def)
  have al: "alerts (saveMemory server_error_reply filled_form) = [''Error: Database locked'']"
    by code_simp
  show ?thesis
    using saveMemory_error_keeps_form [OF h1 h2, of server_error_reply] e v h1 h2 al by simp
qed

section \<open>MediaManager: file selection and upload\<close>

record media_file =
  file_name :: string
  file_type :: string
  file_size :: nat

definition allowedTypes :: "string list" where
  "allowedTypes = [''image/jpeg'', ''image/png'', ''image/gif'', ''image/webp'',
                   ''application/pdf'', ''audio/mpeg'', ''audio/wav'',
                   ''video/mp4'', ''video/quicktime'']"

definition allowedExtensions :: "string list" where
  "allowedExtensions = [''jpg'', ''jpeg'', ''png'', ''gif'', ''webp'', ''pdf'', ''mp3'', ''wav'',
                        ''mp4'', ''mov'', ''avi'']"

text \<open>
  \<open>name.toLowerCase().match(/\.(jpg|...|avi)$/)\<close>: the lower-cased name ends in a dot
  followed by one of the extensions.
\<close>

definition matches_extension :: "string \<Rightarrow> bool" where
  "matches_extension name =
     list_ex (\<lambda>ext. suffix (CHR ''.'' # ext) (toLowerCase name)) allowedExtensions"

definition type_allowed :: "media_file \<Rightarrow> bool" where
  "type_allowed f = (file_type f \<in> set allowedTypes \<or> matches_extension (file_name f))"

definition maxSize :: nat where
  "maxSize = 50 * 1024 * 1024"

datatype btn_html = BtnIdle | BtnUploading

record upload_request =
  up_file :: media_file
  up_title :: string

text \<open>
  What awaiting the upload of one file gives: \<open>UploadThrew m\<close> when \<open>fetch\<close> or
  \<open>response.json()\<close> rejects or the parsed body is \<open>null\<close> (reading a field of it
  throws), with \<open>m\<close> the error's message; \<open>UploadReplied ok r\<close> when the body parsed to
  \<open>r\<close>, with \<open>ok\<close> the value of \<open>response.ok\<close>.
\<close>

datatype upload_outcome = UploadThrew string | UploadReplied bool api_reply

text \<open>
  A run of \<open>handleUpload\<close> suspended at an \<open>await\<close>: its locals, and the array its
  \<open>for ... of\<close> loop iterates. The iterator holds the array object itself, so
  \<open>t_aliased\<close> records whether \<open>this.selectedFiles\<close> still is that object, and
  \<open>t_next\<close> is the iterator's next index.
\<close>

record upload_task =
  t_array :: "media_file list"
  t_aliased :: bool
  t_next :: nat
  t_current :: media_file
  t_title :: string
  t_successCount :: nat
  t_errorCount :: nat
  t_errors :: "string list"
  t_originalBtnText :: btn_html

datatype log_entry = FlagSet | FlagCleared | Request upload_request

text \<open>
  The fields of the manager the handlers below use. \<open>upload_log\<close> lists, in the order
  the code performs them, the assignments to \<open>uploadInProgress\<close> and the upload
  requests; \<open>completed\<close> keeps the locals of every finished run; \<open>messages\<close> lists the
  calls of \<open>showMessage\<close>.
\<close>

record media_manager =
  selectedFiles :: "media_file list"
  uploadInProgress :: bool
  tasks :: "upload_task list"
  completed :: "upload_task list"
  upload_log :: "log_entry list"
  messages :: "(string \<times> string) list"
  preview :: "media_file list"
  upload_form_shown :: bool
  upload_btn_disabled :: bool
  upload_btn_html :: btn_html
  media_title :: string
  gallery_refreshes :: nat

definition showMessage :: "string \<Rightarrow> string \<Rightarrow> media_manager \<Rightarrow> media_manager" where
  "showMessage message type s = s\<lparr>messages := messages s @ [(message, type)]\<rparr>"

definition showPreview :: "media_manager \<Rightarrow> media_manager" where
  "showPreview s =
     (if selectedFiles s = [] then s\<lparr>preview := [], upload_form_shown := False\<rparr>
      else s\<lparr>preview := selectedFiles s, upload_form_shown := True\<rparr>)"

text \<open>
  Assigning a new array to \<open>this.selectedFiles\<close>: a suspended run keeps iterating the
  old array, which the manager no longer reaches.
\<close>

definition assign_selectedFiles :: "media_file list \<Rightarrow> media_manager \<Rightarrow> media_manager" where
  "assign_selectedFiles fs s =
     s\<lparr>selectedFiles := fs, tasks := map (\<lambda>t. t\<lparr>t_aliased := False\<rparr>) (tasks s)\<rparr>"

definition handleFileSelect :: "media_file list \<Rightarrow> media_manager \<Rightarrow> media_manager" where
  "handleFileSelect files s =
     (let validFiles = filter type_allowed files
      in if validFiles = []
         then showMessage
                ''No valid files selected. Please select images, PDFs, audio, or video files.''
                ''error'' s
         else
           (let oversizedFiles = filter (\<lambda>f. file_size f > maxSize) validFiles;
                s1 = (if oversizedFiles \<noteq> []
                      then assign_selectedFiles (filter (\<lambda>f. file_size f \<le> maxSize) validFiles)
                             (showMessage
                                (''Some files exceed 50MB limit: ''
                                   @ join_with '', '' (map file_name oversizedFiles))
                                ''error'' s)
                      else assign_selectedFiles validFiles s)
            in if selectedFiles s1 \<noteq> [] then showPreview s1 else s1))"

text \<open>
  \<open>this.selectedFiles.splice(index, 1)\<close> changes the array in place, so a suspended run
  that iterates the same array sees the removal.
\<close>

definition splice1 :: "nat \<Rightarrow> 'a list \<Rightarrow> 'a list" where
  "splice1 i xs = take i xs @ drop (Suc i) xs"

definition removeFile :: "nat \<Rightarrow> media_manager \<Rightarrow> media_manager" where
  "removeFile index s =
     showPreview
       (s\<lparr>selectedFiles := splice1 index (selectedFiles s),
          tasks := map (\<lambda>t. if t_aliased t then t\<lparr>t_array := splice1 index (t_array t)\<rparr> else t)
                     (tasks s)\<rparr>)"

definition request_for :: "string \<Rightarrow> media_file \<Rightarrow> upload_request" where
  "request_for title f = \<lparr>up_file = f, up_title = (if title \<noteq> [] then title else file_name f)\<rparr>"

text \<open>
  \<open>handleUpload\<close> from its entry to the first \<open>await\<close>: the two guards, the flag, the
  button, the locals, and the request for the first file of the array.
\<close>

definition handleUpload :: "media_manager \<Rightarrow> media_manager" where
  "handleUpload s =
     (case selectedFiles s of
        [] \<Rightarrow> showMessage ''Please select files to upload'' ''error'' s
      | f # _ \<Rightarrow>
          if uploadInProgress s then s
          else s\<lparr>uploadInProgress := True,
                 upload_btn_disabled := True,
                 upload_btn_html := BtnUploading,
                 upload_log := upload_log s @ [FlagSet, Request (request_for (media_title s) f)],
                 tasks := tasks s @
                   [\<lparr>t_array = selectedFiles s, t_aliased = True, t_next = 1, t_current = f,
                     t_title = media_title s, t_successCount = 0, t_errorCount = 0,
                     t_errors = [], t_originalBtnText = upload_btn_html s\<rparr>]\<rparr>)"

text \<open>The body of the loop after the \<open>await\<close>s: one tally for the file in flight.\<close>

definition upload_succeeded :: "upload_outcome \<Rightarrow> bool" where
  "upload_succeeded outcome =
     (case outcome of
        UploadThrew m \<Rightarrow> False
      | UploadReplied ok r \<Rightarrow> ok \<and> reply_status r = JStr ''success'')"

definition error_entry :: "media_file \<Rightarrow> upload_outcome \<Rightarrow> string" where
  "error_entry f outcome =
     (case outcome of
        UploadThrew m \<Rightarrow> file_name f @ '': '' @ m
      | UploadReplied ok r \<Rightarrow>
          file_name f @ '': ''
            @ (if truthy (reply_message r) then to_string (reply_message r) else ''Upload failed''))"

definition tally :: "upload_outcome \<Rightarrow> upload_task \<Rightarrow> upload_task" where
  "tally outcome t =
     (if upload_succeeded outcome then t\<lparr>t_successCount := Suc (t_successCount t)\<rparr>
      else t\<lparr>t_errorCount := Suc (t_errorCount t),
             t_errors := t_errors t @ [error_entry (t_current t) outcome]\<rparr>)"

definition debouncedGalleryRefresh :: "media_manager \<Rightarrow> media_manager" where
  "debouncedGalleryRefresh s = s\<lparr>gallery_refreshes := Suc (gallery_refreshes s)\<rparr>"

text \<open>The code after the loop, for the run whose locals are \<open>t\<close>.\<close>

definition finish_upload :: "upload_task \<Rightarrow> media_manager \<Rightarrow> media_manager" where
  "finish_upload t s =
     (let s1 = s\<lparr>uploadInProgress := False,
                 upload_btn_disabled := False,
                 upload_btn_html := t_originalBtnText t,
                 upload_log := upload_log s @ [FlagCleared],
                 completed := completed s @ [t]\<rparr>;
          s2 = (if t_successCount t > 0
                then showMessage
                       (''Successfully uploaded '' @ nat_to_string (t_successCount t) @ '' file(s)'')
                       ''success''
                       ((debouncedGalleryRefresh (showPreview (assign_selectedFiles [] s1)))
                          \<lparr>media_title := [], upload_form_shown := False\<rparr>)
                else s1)
      in if t_errorCount t > 0
         then showMessage
                (''Failed to upload '' @ nat_to_string (t_errorCount t) @ '' file(s): ''
                   @ join_with ''; '' (t_errors t))
                ''error'' s2
         else s2)"

text \<open>
  Resuming the suspended run number \<open>k\<close> with the outcome of its request: the tally,
  then the iterator's next step, which either issues the request for the next file of
  the array or ends the loop.
\<close>

definition resume_upload :: "nat \<Rightarrow> upload_outcome \<Rightarrow> media_manager \<Rightarrow> media_manager" where
  "resume_upload k outcome s =
     (if k < length (tasks s) then
        (let t = tally outcome (tasks s ! k)
         in if t_next t < length (t_array t) then
              (let f = t_array t ! t_next t
               in s\<lparr>tasks := (tasks s)[k := t\<lparr>t_current := f, t_next := Suc (t_next t)\<rparr>],
                     upload_log := upload_log s @ [Request (request_for (t_title t) f)]\<rparr>)
            else finish_upload t (s\<lparr>tasks := splice1 k (tasks s)\<rparr>))
      else s)"

text \<open>The manager as the constructor leaves it, and the events that reach it.\<close>

definition new_manager :: media_manager where
  "new_manager = \<lparr>selectedFiles = [], uploadInProgress = False, tasks = [], completed = [],
     upload_log = [], messages = [], preview = [], upload_form_shown = False,
     upload_btn_disabled = False, upload_btn_html = BtnIdle, media_title = [],
     gallery_refreshes = 0\<rparr>"

datatype mm_event =
    FilesChosen "media_file list"
  | RemoveClicked nat
  | TitleTyped string
  | FormSubmitted
  | UploadSettled nat upload_outcome
  | GalleryRefreshAsked

fun mm_step :: "mm_event \<Rightarrow> media_manager \<Rightarrow> media_manager" where
  "mm_step (FilesChosen files) s = handleFileSelect files s"
| "mm_step (RemoveClicked i) s = removeFile i s"
| "mm_step (TitleTyped t) s = s\<lparr>media_title := t\<rparr>"
| "mm_step FormSubmitted s = handleUpload s"
| "mm_step (UploadSettled k outcome) s = resume_upload k outcome s"
| "mm_step GalleryRefreshAsked s = debouncedGalleryRefresh s"

inductive mm_reachable :: "media_manager \<Rightarrow> bool" where
  mm_init: "mm_reachable new_manager"
| mm_next: "mm_reachable s \<Longrightarrow> mm_reachable (mm_step e s)"

text \<open>The files the claim allows: an allowed type, and at most 50 MB.\<close>

definition claimed_type_ok :: "media_file \<Rightarrow> bool" where
  "claimed_type_ok f =
     (file_type f \<in> {''image/jpeg'', ''image/png'', ''image/gif'', ''image/webp'',
                      ''application/pdf'', ''audio/mpeg'', ''audio/wav'',
                      ''video/mp4'', ''video/quicktime''}
      \<or> (\<exists>ext \<in> {''.jpg'', ''.jpeg'', ''.png'', ''.gif'', ''.webp'', ''.pdf'', ''.mp3'', ''.wav'',
                     ''.mp4'', ''.mov'', ''.avi''}.
            \<exists>stem. toLowerCase (file_name f) = stem @ ext))"

definition acceptable :: "media_file \<Rightarrow> bool" where
  "acceptable f = (claimed_type_ok f \<and> file_size f \<le> 50 * 1024 * 1024)"

lemma type_allowed_iff: "type_allowed f = claimed_type_ok f"
  by (simp add: type_allowed_def claimed_type_ok_def allowedTypes_def matches_extension_def
      allowedExtensions_def suffix_def)

lemma filter_acceptable:
  "filter (\<lambda>f. file_size f \<le> maxSize) (filter type_allowed files) = filter acceptable files"
  by (induction files) (simp_all add: acceptable_def type_allowed_iff maxSize_def)

lemma no_oversized_filter:
  assumes "filter (\<lambda>f. file_size f > maxSize) (filter type_allowed files) = []"
  shows "filter type_allowed files = filter acceptable files"
  using assms
  by (induction files) (auto simp add: acceptable_def type_allowed_iff maxSize_def split: if_splits)

lemma selectedFiles_showMessage [simp]:
  "selectedFiles (showMessage m t s) = selectedFiles s"
  by (simp add: showMessage_def)

lemma selectedFiles_showPreview [simp]: "selectedFiles (showPreview s) = selectedFiles s"
  by (simp add: showPreview_def)

lemma selectedFiles_assign [simp]: "selectedFiles (assign_selectedFiles fs s) = fs"
  by (simp add: assign_selectedFiles_def)

lemma messages_showPreview [simp]: "messages (showPreview s) = messages s"
  by (simp add: showPreview_def)

lemma messages_assign [simp]: "messages (assign_selectedFiles fs s) = messages s"
  by (simp add: assign_selectedFiles_def)

lemma messages_showMessage [simp]: "messages (showMessage m t s) = messages s @ [(m, t)]"
  by (simp add: showMessage_def)

text \<open>What \<open>handleFileSelect\<close> leaves in \<open>selectedFiles\<close>.\<close>

lemma handleFileSelect_selectedFiles:
  "selectedFiles (handleFileSelect files s) =
     (if filter type_allowed files = [] then selectedFiles s else filter acceptable files)"
proof (cases "filter type_allowed files = []")
  case True
  then show ?thesis by (simp add: handleFileSelect_def)
next
  case False
  show ?thesis
  proof (cases "filter (\<lambda>f. file_size f > maxSize) (filter type_allowed files) = []")
    case True
    then have "filter type_allowed files = filter acceptable files"
      by (rule no_oversized_filter)
    with True False show ?thesis
      unfolding handleFileSelect_def Let_def
      by (simp del: filter_filter)
  next
    case over: False
    with False show ?thesis
      unfolding handleFileSelect_def Let_def
      by (simp add: filter_acceptable del: filter_filter)
  qed
qed

lemma handleFileSelect_messages:
  "filter acceptable files = [] \<Longrightarrow>
   \<exists>m. messages (handleFileSelect files s) = messages s @ [(m, ''error'')]"
proof (cases "filter type_allowed files = []")
  case True
  then show ?thesis by (simp add: handleFileSelect_def)
next
  case False
  assume none: "filter acceptable files = []"
  have "filter (\<lambda>f. file_size f > maxSize) (filter type_allowed files) \<noteq> []"
    using no_oversized_filter [of files] False none by auto
  with False show ?thesis
    unfolding handleFileSelect_def Let_def
    by (simp del: filter_filter)
qed

lemma list_all_splice1: "list_all P xs \<Longrightarrow> list_all P (splice1 i xs)"
  by (auto simp add: splice1_def list_all_iff dest: in_set_takeD in_set_dropD)

lemma selectedFiles_finish_upload:
  "selectedFiles (finish_upload t s) = (if t_successCount t > 0 then [] else selectedFiles s)"
  by (simp add: finish_upload_def Let_def debouncedGalleryRefresh_def)

lemma selectedFiles_resume_upload:
  "selectedFiles (resume_upload k outcome s) = selectedFiles s
   \<or> selectedFiles (resume_upload k outcome s) = []"
  by (simp add: resume_upload_def Let_def selectedFiles_finish_upload)

lemma selectedFiles_handleUpload [simp]: "selectedFiles (handleUpload s) = selectedFiles s"
  by (simp add: handleUpload_def split: list.splits)

lemma mm_step_acceptable:
  assumes "list_all acceptable (selectedFiles s)"
  shows "list_all acceptable (selectedFiles (mm_step e s))"
proof (cases e)
  case (FilesChosen files)
  then show ?thesis using assms by (simp add: handleFileSelect_selectedFiles list_all_iff)
next
  case (RemoveClicked i)
  then show ?thesis using assms by (simp add: removeFile_def list_all_splice1)
next
  case (TitleTyped t)
  then show ?thesis using assms by simp
next
  case FormSubmitted
  then show ?thesis using assms by simp
next
  case (UploadSettled k outcome)
  then show ?thesis using assms selectedFiles_resume_upload [of k outcome s] by auto
next
  case GalleryRefreshAsked
  then show ?thesis using assms by (simp add: debouncedGalleryRefresh_def)
qed

lemma reachable_acceptable: "mm_reachable s \<Longrightarrow> list_all acceptable (selectedFiles s)"
proof (induction rule: mm_reachable.induct)
  case mm_init
  then show ?case by (simp add: new_manager_def)
next
  case (mm_next s e)
  from mm_next.IH show ?case by (rule mm_step_acceptable)
qed

text \<open>
  Claim C7. In every state the manager can reach, after \<open>handleFileSelect\<close> every file
  in \<open>selectedFiles\<close> has an allowed type and at most 50 MB; a chosen file that fails
  either test is not among them. If some chosen file passes both tests, the selection
  is exactly the chosen files that pass; if none does, an error message is shown and
  the selection is the one held before or empty.
\<close>

theorem handleFileSelect_keeps_valid:
  assumes "mm_reachable s"
  shows "list_all acceptable (selectedFiles (handleFileSelect files s))
       \<and> (\<forall>f. f \<in> set files \<and> \<not> acceptable f
              \<longrightarrow> f \<notin> set (selectedFiles (handleFileSelect files s)))
       \<and> (filter acceptable files \<noteq> []
              \<longrightarrow> selectedFiles (handleFileSelect files s) = filter acceptable files)
       \<and> (filter acceptable files = []
              \<longrightarrow> (\<exists>m. messages (handleFileSelect files s) = messages s @ [(m, ''error'')])
                \<and> (selectedFiles (handleFileSelect files s) = selectedFiles s
                   \<or> selectedFiles (handleFileSelect files s) = []))"
proof -
  let ?s' = "handleFileSelect files s"
  have old: "list_all acceptable (selectedFiles s)" using assms by (rule reachable_acceptable)
  have all: "list_all acceptable (selectedFiles ?s')"
    using old by (simp add: handleFileSelect_selectedFiles list_all_iff)
  then have bad: "\<forall>f. f \<in> set files \<and> \<not> acceptable f \<longrightarrow> f \<notin> set (selectedFiles ?s')"
    by (auto simp add: list_all_iff)
  have some: "filter acceptable files \<noteq> [] \<longrightarrow> selectedFiles ?s' = filter acceptable files"
  proof
    assume "filter acceptable files \<noteq> []"
    then have "filter type_allowed files \<noteq> []"
      by (auto simp add: filter_empty_conv acceptable_def type_allowed_iff)
    then show "selectedFiles ?s' = filter acceptable files"
      by (simp add: handleFileSelect_selectedFiles)
  qed
  have none: "filter acceptable files = []
      \<longrightarrow> (\<exists>m. messages ?s' = messages s @ [(m, ''error'')])
        \<and> (selectedFiles ?s' = selectedFiles s \<or> selectedFiles ?s' = [])"
    using handleFileSelect_messages [of files s]
    by (auto simp add: handleFileSelect_selectedFiles)
  from all bad some none show ?thesis by blast
qed

definition holiday_jpg :: media_file where
  "holiday_jpg = \<lparr>file_name = ''Holiday.JPG'', file_type = '''', file_size = 2048\<rparr>"

definition long_film :: media_file where
  "long_film = \<lparr>file_name = ''film.mp4'', file_type = ''video/mp4'', file_size = 52428801\<rparr>"

definition notes_txt :: media_file where
  "notes_txt = \<lparr>file_name = ''notes.txt'', file_type = ''text/plain'', file_size = 10\<rparr>"

theorem handleFileSelect_keeps_valid_witness:
  "mm_reachable new_manager
   \<and> selectedFiles (handleFileSelect [holiday_jpg, long_film, notes_txt] new_manager) = [holiday_jpg]
   \<and> acceptable holiday_jpg \<and> \<not> acceptable long_film \<and> \<not> acceptable notes_txt
   \<and> long_film \<notin> set (selectedFiles (handleFileSelect [holiday_jpg, long_film, notes_txt] new_manager))
   \<and> selectedFiles (handleFileSelect [long_film, notes_txt] new_manager) = []"
proof -
  have r: "mm_reachable new_manager" by (rule mm_init)
  have t1: "type_allowed holiday_jpg" by code_simp
  have t3: "\<not> type_allowed notes_txt" by code_simp
  have a1: "acceptable holiday_jpg"
    using t1 by (simp add: acceptable_def type_allowed_iff [symmetric] holiday_jpg_def)
  have a2: "\<not> acceptable long_film"
    by (simp add: acceptable_def long_film_def)
  have a3: "\<not> acceptable notes_txt"
    using t3 by (simp add: acceptable_def type_allowed_iff [symmetric])
  have f1: "filter acceptable [holiday_jpg, long_film, notes_txt] = [holiday_jpg]"
    using a1 a2 a3 by simp
  have f2: "filter acceptable [long_film, notes_txt] = []"
    using a2 a3 by simp
  have e: "selectedFiles new_manager = []" by (simp add: new_manager_def)
  note w1 = handleFileSelect_keeps_valid [OF r, of "[holiday_jpg, long_film, notes_txt]"]
  note w2 = handleFileSelect_keeps_valid [OF r, of "[long_film, notes_txt]"]
  have s1: "selectedFiles (handleFileSelect [holiday_jpg, long_film, notes_txt] new_manager)
              = [holiday_jpg]"
    using w1 [THEN conjunct2, THEN conjunct2, THEN conjunct1] f1 by simp
  have s2: "long_film \<notin> set (selectedFiles (handleFileSelect [holiday_jpg, long_film, notes_txt] new_manager))"
    using w1 [THEN conjunct2, THEN conjunct1, THEN spec, of long_film] a2 by simp
  have s3: "selectedFiles (handleFileSelect [long_film, notes_txt] new_manager) = []"
    using w2 [THEN conjunct2, THEN conjunct2, THEN conjunct2] f2 e by auto
  from r s1 a1 a2 a3 s2 s3 show ?thesis by blast
qed

subsection \<open>A run of handleUpload\<close>

lemma tally_frame [simp]:
  "t_array (tally outcome t) = t_array t"
  "t_next (tally outcome t) = t_next t"
  "t_title (tally outcome t) = t_title t"
  "t_aliased (tally outcome t) = t_aliased t"
  "t_originalBtnText (tally outcome t) = t_originalBtnText t"
  by (simp_all add: tally_def)

text \<open>
  The tallies a run is expected to keep, stated apart from the loop's own test. An
  upload counts as a success when the response has an ok status and its parsed body has
  the status \<open>'success'\<close>; every other outcome is a failure, and the reason recorded
  with it is the message of the error thrown or the message of the reply,
  \<open>'Upload failed'\<close> when the reply has none.
\<close>

fun replied_success :: "upload_outcome \<Rightarrow> bool" where
  "replied_success (UploadReplied True r) = (reply_status r = JStr ''success'')"
| "replied_success (UploadReplied False r) = False"
| "replied_success (UploadThrew m) = False"

fun failure_reason :: "upload_outcome \<Rightarrow> string" where
  "failure_reason (UploadThrew m) = m"
| "failure_reason (UploadReplied ok r) =
     (if truthy (reply_message r) then to_string (reply_message r) else ''Upload failed'')"

definition count_succeeded :: "upload_outcome list \<Rightarrow> nat" where
  "count_succeeded os = length (filter replied_success os)"

definition count_failed :: "upload_outcome list \<Rightarrow> nat" where
  "count_failed os = length (filter (\<lambda>outcome. \<not> replied_success outcome) os)"

text \<open>The outcomes that are failures, with the file each belongs to.\<close>

definition failed_entries :: "media_file list \<Rightarrow> upload_outcome list \<Rightarrow> string list" where
  "failed_entries fs os =
     map (\<lambda>(f, outcome). file_name f @ '': '' @ failure_reason outcome)
       (filter (\<lambda>(f, outcome). \<not> replied_success outcome) (zip fs os))"

text \<open>The files and replies of the runs evaluated below.\<close>

definition scan_pdf :: media_file where
  "scan_pdf = \<lparr>file_name = ''scan.pdf'', file_type = ''application/pdf'', file_size = 4096\<rparr>"

definition birthday_png :: media_file where
  "birthday_png = \<lparr>file_name = ''birthday.png'', file_type = ''image/png'', file_size = 1024\<rparr>"

definition two_selected :: media_manager where
  "two_selected = new_manager\<lparr>selectedFiles := [holiday_jpg, scan_pdf],
     preview := [holiday_jpg, scan_pdf], upload_form_shown := True\<rparr>"

definition three_selected :: media_manager where
  "three_selected = new_manager\<lparr>selectedFiles := [holiday_jpg, scan_pdf, birthday_png],
     preview := [holiday_jpg, scan_pdf, birthday_png], upload_form_shown := True\<rparr>"

definition reply_success :: upload_outcome where
  "reply_success = UploadReplied True \<lparr>reply_status = JStr ''success'', reply_message = JUndefined\<rparr>"

definition reply_too_large :: upload_outcome where
  "reply_too_large = UploadReplied False \<lparr>reply_status = JStr ''error'', reply_message = JStr ''File too large''\<rparr>"

definition fetch_failed :: upload_outcome where
  "fetch_failed = UploadThrew ''Failed to fetch''"

text \<open>
  Three files are chosen and the form is submitted; while the request for the first
  file is awaited, the remove button of the first file is clicked; then the requests
  of the run succeed, one after the other.
\<close>

definition removed_while_uploading :: media_manager where
  "removed_while_uploading =
     fold mm_step
       [FilesChosen [holiday_jpg, scan_pdf, birthday_png], FormSubmitted, RemoveClicked 0,
        UploadSettled 0 reply_success, UploadSettled 0 reply_success]
       new_manager"

text \<open>
  Two files are chosen and the form is submitted; while the request for the first file
  is awaited, the remove button of the first file is clicked; then the request fails.
\<close>

definition removed_then_failed :: media_manager where
  "removed_then_failed =
     fold mm_step
       [FilesChosen [holiday_jpg, scan_pdf], FormSubmitted, RemoveClicked 0,
        UploadSettled 0 fetch_failed]
       new_manager"

lemma upload_succeeded_iff: "upload_succeeded outcome = replied_success outcome"
  by (cases outcome rule: replied_success.cases) (simp_all add: upload_succeeded_def)

lemma error_entry_eq:
  "error_entry f outcome = file_name f @ '': '' @ failure_reason outcome"
  by (cases outcome) (simp_all add: error_entry_def)

lemma tally_counts:
  "t_successCount (tally outcome t) = t_successCount t + (if replied_success outcome then 1 else 0)"
  "t_errorCount (tally outcome t) = t_errorCount t + (if replied_success outcome then 0 else 1)"
  "t_errors (tally outcome t) =
     t_errors t @ (if replied_success outcome then []
                   else [file_name (t_current t) @ '': '' @ failure_reason outcome])"
  by (simp_all add: tally_def upload_succeeded_iff error_entry_eq)

lemma finish_upload_fields:
  "uploadInProgress (finish_upload t s) = False"
  "completed (finish_upload t s) = completed s @ [t]"
  "upload_log (finish_upload t s) = upload_log s @ [FlagCleared]"
  "tasks s = [] \<Longrightarrow> tasks (finish_upload t s) = []"
  by (simp_all add: finish_upload_def Let_def showMessage_def debouncedGalleryRefresh_def
      showPreview_def assign_selectedFiles_def)

lemma resume_more_files:
  assumes "tasks s = [t]" "t_next t < length (t_array t)"
  shows "resume_upload 0 outcome s =
           s\<lparr>tasks := [(tally outcome t)\<lparr>t_current := t_array t ! t_next t, t_next := Suc (t_next t)\<rparr>],
              upload_log := upload_log s @ [Request (request_for (t_title t) (t_array t ! t_next t))]\<rparr>"
  using assms by (simp add: resume_upload_def Let_def)

lemma resume_last_file:
  assumes "tasks s = [t]" "length (t_array t) \<le> t_next t"
  shows "resume_upload 0 outcome s = finish_upload (tally outcome t) (s\<lparr>tasks := []\<rparr>)"
  using assms by (simp add: resume_upload_def Let_def splice1_def)

lemma count_total: "count_succeeded os + count_failed os = length os"
  by (induction os) (simp_all add: count_succeeded_def count_failed_def)

lemma length_failed_entries:
  "length fs = length os \<Longrightarrow> length (failed_entries fs os) = count_failed os"
  by (induction fs os rule: list_induct2) (simp_all add: failed_entries_def count_failed_def)

lemma two_selected_chosen:
  "mm_step (FilesChosen [holiday_jpg, scan_pdf]) new_manager = two_selected"
proof -
  have t: "type_allowed holiday_jpg" "type_allowed scan_pdf" by code_simp+
  have z: "\<not> maxSize < file_size holiday_jpg" "\<not> maxSize < file_size scan_pdf"
    by (simp_all add: maxSize_def holiday_jpg_def scan_pdf_def)
  have v: "filter type_allowed [holiday_jpg, scan_pdf] = [holiday_jpg, scan_pdf]"
    using t by simp
  have o: "filter (\<lambda>f. maxSize < file_size f) [holiday_jpg, scan_pdf] = []"
    using z by simp
  show ?thesis
    unfolding mm_step.simps handleFileSelect_def Let_def v o
    by (simp add: assign_selectedFiles_def showPreview_def new_manager_def two_selected_def)
qed

lemma three_selected_chosen:
  "mm_step (FilesChosen [holiday_jpg, scan_pdf, birthday_png]) new_manager = three_selected"
proof -
  have t: "type_allowed holiday_jpg" "type_allowed scan_pdf" "type_allowed birthday_png"
    by code_simp+
  have z: "\<not> maxSize < file_size holiday_jpg" "\<not> maxSize < file_size scan_pdf"
    "\<not> maxSize < file_size birthday_png"
    by (simp_all add: maxSize_def holiday_jpg_def scan_pdf_def birthday_png_def)
  have v: "filter type_allowed [holiday_jpg, scan_pdf, birthday_png]
             = [holiday_jpg, scan_pdf, birthday_png]"
    using t by simp
  have o: "filter (\<lambda>f. maxSize < file_size f) [holiday_jpg, scan_pdf, birthday_png] = []"
    using z by simp
  show ?thesis
    unfolding mm_step.simps handleFileSelect_def Let_def v o
    by (simp add: assign_selectedFiles_def showPreview_def new_manager_def three_selected_def)
qed

lemma request_for_names:
  "request_for [] holiday_jpg = \<lparr>up_file = holiday_jpg, up_title = ''Holiday.JPG''\<rparr>"
  "request_for [] scan_pdf = \<lparr>up_file = scan_pdf, up_title = ''scan.pdf''\<rparr>"
  "request_for [] birthday_png = \<lparr>up_file = birthday_png, up_title = ''birthday.png''\<rparr>"
  by (simp_all add: request_for_def holiday_jpg_def scan_pdf_def birthday_png_def)

text \<open>
  Claim C3 fails in the run \<open>removed_while_uploading\<close>. The loop of \<open>handleUpload\<close>
  iterates the array that \<open>removeFile\<close> splices, so after the removal of
  \<open>Holiday.JPG\<close>, whose request is in flight, the iterator's next index 1 stands at
  \<open>birthday.png\<close>. Of the three files selected at the submit the run requests
  \<open>Holiday.JPG\<close> and \<open>birthday.png\<close> and never \<open>scan.pdf\<close>; it ends with
  \<open>successCount\<close> 2, \<open>errorCount\<close> 0 and no error entry, reports two uploaded files
  and empties the selection.
\<close>

theorem handleUpload_passes_over_selected_file:
  "selectedFiles
     (fold mm_step [FilesChosen [holiday_jpg, scan_pdf, birthday_png], FormSubmitted] new_manager)
     = [holiday_jpg, scan_pdf, birthday_png]
   \<and> upload_log removed_while_uploading
       = [FlagSet,
          Request \<lparr>up_file = holiday_jpg, up_title = ''Holiday.JPG''\<rparr>,
          Request \<lparr>up_file = birthday_png, up_title = ''birthday.png''\<rparr>,
          FlagCleared]
   \<and> map (\<lambda>t. (t_successCount t, t_errorCount t, t_errors t)) (completed removed_while_uploading)
       = [(2, 0, [])]
   \<and> tasks removed_while_uploading = []
   \<and> selectedFiles removed_while_uploading = []
   \<and> messages removed_while_uploading = [(''Successfully uploaded 2 file(s)'', ''success'')]"
proof -
  let ?t0 = "\<lparr>t_array = [holiday_jpg, scan_pdf, birthday_png], t_aliased = True, t_next = 1,
               t_current = holiday_jpg, t_title = [], t_successCount = 0, t_errorCount = 0,
               t_errors = [], t_originalBtnText = BtnIdle\<rparr>"
  let ?s2 = "handleUpload three_selected"
  let ?s3 = "removeFile 0 ?s2"
  let ?s4 = "resume_upload 0 reply_success ?s3"
  let ?t3 = "?t0\<lparr>t_array := [scan_pdf, birthday_png]\<rparr>"
  let ?t4 = "(tally reply_success ?t3)\<lparr>t_current := birthday_png, t_next := 2\<rparr>"
  have ok: "replied_success reply_success" by (simp add: reply_success_def)
  have two: "nat_to_string 2 = ''2''" by code_simp
  have s2: "selectedFiles ?s2 = [holiday_jpg, scan_pdf, birthday_png]"
    "tasks ?s2 = [?t0]" "messages ?s2 = []" "completed ?s2 = []"
    "upload_log ?s2 = [FlagSet, Request (request_for [] holiday_jpg)]"
    by (simp_all add: handleUpload_def three_selected_def new_manager_def)
  have s3: "tasks ?s3 = [?t3]" "messages ?s3 = []" "completed ?s3 = []"
    "upload_log ?s3 = [FlagSet, Request (request_for [] holiday_jpg)]"
    using s2 by (simp_all add: removeFile_def showPreview_def splice1_def)
  have r4: "?s4 = ?s3\<lparr>tasks := [?t4],
                upload_log := upload_log ?s3 @ [Request (request_for [] birthday_png)]\<rparr>"
    using resume_more_files [of ?s3 ?t3 reply_success] s3(1) by simp
  have t4: "tasks ?s4 = [?t4]" by (simp add: r4)
  have r5: "resume_upload 0 reply_success ?s4
              = finish_upload (tally reply_success ?t4) (?s4\<lparr>tasks := []\<rparr>)"
    using resume_last_file [of ?s4 ?t4 reply_success] t4 by simp
  have c: "t_successCount (tally reply_success ?t4) = 2"
    "t_errorCount (tally reply_success ?t4) = 0" "t_errors (tally reply_success ?t4) = []"
    using ok by (simp_all add: tally_counts)
  have e: "removed_while_uploading = finish_upload (tally reply_success ?t4) (?s4\<lparr>tasks := []\<rparr>)"
    unfolding removed_while_uploading_def using r5
    by (simp add: three_selected_chosen [unfolded mm_step.simps])
  have l: "upload_log removed_while_uploading
       = [FlagSet,
          Request \<lparr>up_file = holiday_jpg, up_title = ''Holiday.JPG''\<rparr>,
          Request \<lparr>up_file = birthday_png, up_title = ''birthday.png''\<rparr>,
          FlagCleared]"
    unfolding e finish_upload_fields using s3(4) by (simp add: r4 request_for_names)
  have d: "map (\<lambda>t. (t_successCount t, t_errorCount t, t_errors t)) (completed removed_while_uploading)
       = [(2, 0, [])]"
    unfolding e finish_upload_fields using s3(3) c by (simp add: r4)
  have k: "tasks removed_while_uploading = []"
    unfolding e by (simp add: finish_upload_fields)
  have f: "selectedFiles removed_while_uploading = []"
    unfolding e using c(1) by (simp add: selectedFiles_finish_upload)
  have m: "messages removed_while_uploading = [(''Successfully uploaded 2 file(s)'', ''success'')]"
    unfolding e using c(1,2) s3(2)
    by (simp add: finish_upload_def Let_def debouncedGalleryRefresh_def showPreview_def
        assign_selectedFiles_def two r4)
  have b: "selectedFiles
     (fold mm_step [FilesChosen [holiday_jpg, scan_pdf, birthday_png], FormSubmitted] new_manager)
     = [holiday_jpg, scan_pdf, birthday_png]"
    using s2(1) by (simp add: three_selected_chosen [unfolded mm_step.simps])
  from b l d k f m show ?thesis by blast
qed

text \<open>
  The loop from a suspended run to its end, when nothing else happens in between: the
  run's request for file \<open>n - 1\<close> is in flight, and \<open>os\<close> are the outcomes of that and
  of every later request.
\<close>

lemma upload_loop:
  assumes "tasks s = [t]" "t_array t = fs" "t_next t = n" "0 < n" "n \<le> length fs"
    and "t_current t = fs ! (n - 1)" "length os = Suc (length fs - n)"
  shows "\<exists>t'. completed (fold (resume_upload 0) os s) = completed s @ [t']
            \<and> t_successCount t' = t_successCount t + count_succeeded os
            \<and> t_errorCount t' = t_errorCount t + count_failed os
            \<and> t_errors t' = t_errors t @ failed_entries (drop (n - 1) fs) os
            \<and> tasks (fold (resume_upload 0) os s) = []
            \<and> \<not> uploadInProgress (fold (resume_upload 0) os s)
            \<and> upload_log (fold (resume_upload 0) os s)
                = upload_log s @ map (\<lambda>f. Request (request_for (t_title t) f)) (drop n fs)
                    @ [FlagCleared]"
  using assms
proof (induction os arbitrary: s t n)
  case Nil
  then show ?case by simp
next
  case (Cons outcome os)
  have cur: "drop (n - 1) fs = fs ! (n - 1) # drop n fs"
    using Cons.prems(4,5) by (metis Cons_nth_drop_Suc Suc_pred' less_le_trans lessI not_less_eq)
  show ?case
  proof (cases "n < length fs")
    case False
    then have n: "n = length fs" using Cons.prems(5) by simp
    then have os: "os = []" using Cons.prems(7) by simp
    have r: "resume_upload 0 outcome s = finish_upload (tally outcome t) (s\<lparr>tasks := []\<rparr>)"
      using Cons.prems(1,2,3) n by (intro resume_last_file) simp_all
    have fe: "failed_entries (drop (n - 1) fs) [outcome]
                = (if replied_success outcome then []
                   else [file_name (t_current t) @ '': '' @ failure_reason outcome])"
      using cur Cons.prems(6) by (simp add: failed_entries_def)
    have dr: "drop n fs = []" using n by simp
    show ?thesis
      unfolding os fe dr
      by (simp add: r finish_upload_fields tally_counts count_succeeded_def count_failed_def)
  next
    case True
    let ?t1 = "(tally outcome t)\<lparr>t_current := fs ! n, t_next := Suc n\<rparr>"
    let ?s1 = "s\<lparr>tasks := [?t1],
                 upload_log := upload_log s @ [Request (request_for (t_title t) (fs ! n))]\<rparr>"
    have r: "resume_upload 0 outcome s = ?s1"
      using resume_more_files [of s t outcome] Cons.prems(1,2,3) True by simp
    have "\<exists>t'. completed (fold (resume_upload 0) os ?s1) = completed ?s1 @ [t']
            \<and> t_successCount t' = t_successCount ?t1 + count_succeeded os
            \<and> t_errorCount t' = t_errorCount ?t1 + count_failed os
            \<and> t_errors t' = t_errors ?t1 @ failed_entries (drop (Suc n - 1) fs) os
            \<and> tasks (fold (resume_upload 0) os ?s1) = []
            \<and> \<not> uploadInProgress (fold (resume_upload 0) os ?s1)
            \<and> upload_log (fold (resume_upload 0) os ?s1)
                = upload_log ?s1 @ map (\<lambda>f. Request (request_for (t_title ?t1) f)) (drop (Suc n) fs)
                    @ [FlagCleared]"
      using Cons.prems(2,7) True by (intro Cons.IH) simp_all
    then obtain t' where t':
      "completed (fold (resume_upload 0) os ?s1) = completed ?s1 @ [t']"
      "t_successCount t' = t_successCount ?t1 + count_succeeded os"
      "t_errorCount t' = t_errorCount ?t1 + count_failed os"
      "t_errors t' = t_errors ?t1 @ failed_entries (drop (Suc n - 1) fs) os"
      "tasks (fold (resume_upload 0) os ?s1) = []"
      "\<not> uploadInProgress (fold (resume_upload 0) os ?s1)"
      "upload_log (fold (resume_upload 0) os ?s1)
         = upload_log ?s1 @ map (\<lambda>f. Request (request_for (t_title ?t1) f)) (drop (Suc n) fs)
             @ [FlagCleared]"
      by blast
    have dn: "drop n fs = fs ! n # drop (Suc n) fs"
      using True by (simp add: Cons_nth_drop_Suc)
    have "completed (fold (resume_upload 0) (outcome # os) s) = completed s @ [t']"
      using t'(1) by (simp add: r)
    moreover have "t_successCount t' = t_successCount t + count_succeeded (outcome # os)"
      using t'(2) by (simp add: tally_counts count_succeeded_def)
    moreover have "t_errorCount t' = t_errorCount t + count_failed (outcome # os)"
      using t'(3) by (simp add: tally_counts count_failed_def)
    moreover have "t_errors t' = t_errors t @ failed_entries (drop (n - 1) fs) (outcome # os)"
      using t'(4) cur Cons.prems(6) by (simp add: tally_counts failed_entries_def)
    moreover have "tasks (fold (resume_upload 0) (outcome # os) s) = []"
      using t'(5) by (simp add: r)
    moreover have "\<not> uploadInProgress (fold (resume_upload 0) (outcome # os) s)"
      using t'(6) by (simp add: r)
    moreover have "upload_log (fold (resume_upload 0) (outcome # os) s)
         = upload_log s @ map (\<lambda>f. Request (request_for (t_title t) f)) (drop n fs) @ [FlagCleared]"
      using t'(7) by (simp add: r dn)
    ultimately show ?thesis by blast
  qed
qed

text \<open>
  A run that no other handler interrupts. Start \<open>handleUpload\<close> with a non-empty
  selection while no upload is running, and let every request settle in turn with the
  outcomes \<open>os\<close>, one per selected file, with no other event in between.
  Then the run has logged the flag being set, one request per selected file in the
  order of the selection, and the flag being cleared, and nothing else; its locals at
  the end count the successful outcomes in \<open>successCount\<close> and the failed ones in
  \<open>errorCount\<close>, the two add up to the number of selected files, and \<open>errors\<close> holds
  one entry per failed file.
\<close>

theorem handleUpload_tallies_every_file:
  assumes "tasks s = []" and "\<not> uploadInProgress s" and "selectedFiles s \<noteq> []"
    and "length os = length (selectedFiles s)"
  shows "upload_log (fold (resume_upload 0) os (handleUpload s))
           = upload_log s @ [FlagSet]
               @ map (\<lambda>f. Request (request_for (media_title s) f)) (selectedFiles s)
               @ [FlagCleared]
       \<and> (\<exists>t. completed (fold (resume_upload 0) os (handleUpload s)) = completed s @ [t]
              \<and> t_successCount t = count_succeeded os
              \<and> t_errorCount t = count_failed os
              \<and> t_successCount t + t_errorCount t = length (selectedFiles s)
              \<and> t_errors t = failed_entries (selectedFiles s) os
              \<and> length (t_errors t) = t_errorCount t)
       \<and> tasks (fold (resume_upload 0) os (handleUpload s)) = []
       \<and> \<not> uploadInProgress (fold (resume_upload 0) os (handleUpload s))"
proof -
  obtain f rest where fs: "selectedFiles s = f # rest"
    using assms(3) by (cases "selectedFiles s") auto
  let ?t0 = "\<lparr>t_array = selectedFiles s, t_aliased = True, t_next = 1, t_current = f,
               t_title = media_title s, t_successCount = 0, t_errorCount = 0,
               t_errors = [], t_originalBtnText = upload_btn_html s\<rparr>"
  let ?s0 = "handleUpload s"
  have s0: "tasks ?s0 = [?t0]" "completed ?s0 = completed s"
    "upload_log ?s0 = upload_log s @ [FlagSet, Request (request_for (media_title s) f)]"
    using assms(1,2) fs by (simp_all add: handleUpload_def)
  have "\<exists>t'. completed (fold (resume_upload 0) os ?s0) = completed ?s0 @ [t']
            \<and> t_successCount t' = t_successCount ?t0 + count_succeeded os
            \<and> t_errorCount t' = t_errorCount ?t0 + count_failed os
            \<and> t_errors t' = t_errors ?t0 @ failed_entries (drop (1 - 1) (selectedFiles s)) os
            \<and> tasks (fold (resume_upload 0) os ?s0) = []
            \<and> \<not> uploadInProgress (fold (resume_upload 0) os ?s0)
            \<and> upload_log (fold (resume_upload 0) os ?s0)
                = upload_log ?s0
                    @ map (\<lambda>f. Request (request_for (t_title ?t0) f)) (drop 1 (selectedFiles s))
                    @ [FlagCleared]"
    using s0(1) fs assms(4) by (intro upload_loop) simp_all
  then obtain t where t:
    "completed (fold (resume_upload 0) os ?s0) = completed s @ [t]"
    "t_successCount t = count_succeeded os"
    "t_errorCount t = count_failed os"
    "t_errors t = failed_entries (selectedFiles s) os"
    "tasks (fold (resume_upload 0) os ?s0) = []"
    "\<not> uploadInProgress (fold (resume_upload 0) os ?s0)"
    "upload_log (fold (resume_upload 0) os ?s0)
       = upload_log s @ [FlagSet]
           @ map (\<lambda>f. Request (request_for (media_title s) f)) (selectedFiles s) @ [FlagCleared]"
    using s0(2,3) fs by auto
  have sum: "t_successCount t + t_errorCount t = length (selectedFiles s)"
    using t(2,3) count_total [of os] assms(4) by simp
  have len: "length (t_errors t) = t_errorCount t"
    using t(3,4) length_failed_entries [of "selectedFiles s" os] assms(4) by simp
  from t sum len show ?thesis by blast
qed

theorem handleUpload_tallies_every_file_witness:
  "tasks three_selected = [] \<and> \<not> uploadInProgress three_selected
   \<and> selectedFiles three_selected \<noteq> []
   \<and> length [reply_success, reply_too_large, fetch_failed] = length (selectedFiles three_selected)
   \<and> upload_log (fold (resume_upload 0) [reply_success, reply_too_large, fetch_failed]
                   (handleUpload three_selected))
       = [FlagSet, Request \<lparr>up_file = holiday_jpg, up_title = ''Holiday.JPG''\<rparr>,
          Request \<lparr>up_file = scan_pdf, up_title = ''scan.pdf''\<rparr>,
          Request \<lparr>up_file = birthday_png, up_title = ''birthday.png''\<rparr>, FlagCleared]
   \<and> (\<exists>t. completed (fold (resume_upload 0) [reply_success, reply_too_large, fetch_failed]
                         (handleUpload three_selected)) = [t]
          \<and> t_successCount t = 1 \<and> t_errorCount t = 2
          \<and> t_errors t = [''scan.pdf: File too large'', ''birthday.png: Failed to fetch''])"
proof -
  have h: "tasks three_selected = []" "\<not> uploadInProgress three_selected"
    "selectedFiles three_selected \<noteq> []"
    "length [reply_success, reply_too_large, fetch_failed] = length (selectedFiles three_selected)"
    by (simp_all add: three_selected_def new_manager_def)
  have v: "selectedFiles three_selected = [holiday_jpg, scan_pdf, birthday_png]"
    "upload_log three_selected = []"
    "completed three_selected = []" "media_title three_selected = []"
    by (simp_all add: three_selected_def new_manager_def)
  have o: "replied_success reply_success" "\<not> replied_success reply_too_large"
    "\<not> replied_success fetch_failed"
    by (simp_all add: reply_success_def reply_too_large_def fetch_failed_def)
  have c: "count_succeeded [reply_success, reply_too_large, fetch_failed] = 1"
    "count_failed [reply_success, reply_too_large, fetch_failed] = 2"
    "failed_entries [holiday_jpg, scan_pdf, birthday_png] [reply_success, reply_too_large, fetch_failed]
       = [''scan.pdf: File too large'', ''birthday.png: Failed to fetch'']"
    using o by (simp_all add: count_succeeded_def count_failed_def failed_entries_def
        reply_too_large_def fetch_failed_def scan_pdf_def birthday_png_def)
  show ?thesis
    using handleUpload_tallies_every_file [OF h] h unfolding v c
    by (simp add: request_for_names) blast
qed

subsection \<open>The upload-in-progress flag\<close>

text \<open>
  Reading the log from the left with the flag's value \<open>b\<close> at its start:
  \<open>log_guarded\<close> says that every request stands where the flag is set, and
  \<open>flag_after\<close> is the flag's value at the end.
\<close>

fun log_guarded :: "bool \<Rightarrow> log_entry list \<Rightarrow> bool" where
  "log_guarded b [] = True"
| "log_guarded b (FlagSet # l) = log_guarded True l"
| "log_guarded b (FlagCleared # l) = log_guarded False l"
| "log_guarded b (Request r # l) = (b \<and> log_guarded b l)"

fun flag_after :: "bool \<Rightarrow> log_entry list \<Rightarrow> bool" where
  "flag_after b [] = b"
| "flag_after b (FlagSet # l) = flag_after True l"
| "flag_after b (FlagCleared # l) = flag_after False l"
| "flag_after b (Request r # l) = flag_after b l"

lemma log_guarded_append:
  "log_guarded b (l @ l') = (log_guarded b l \<and> log_guarded (flag_after b l) l')"
  by (induction b l rule: log_guarded.induct) auto

lemma flag_after_append: "flag_after b (l @ l') = flag_after (flag_after b l) l'"
  by (induction b l rule: flag_after.induct) auto

text \<open>
  The invariant of the manager: the flag is set exactly while a run is suspended, at
  most one run is, and the log agrees with the flag.
\<close>

definition flag_invariant :: "media_manager \<Rightarrow> bool" where
  "flag_invariant s =
     ((uploadInProgress s = (tasks s \<noteq> []))
      \<and> length (tasks s) \<le> 1
      \<and> log_guarded False (upload_log s)
      \<and> flag_after False (upload_log s) = uploadInProgress s)"

lemma handleFileSelect_frame:
  "uploadInProgress (handleFileSelect files s) = uploadInProgress s"
  "upload_log (handleFileSelect files s) = upload_log s"
  "length (tasks (handleFileSelect files s)) = length (tasks s)"
  "(tasks (handleFileSelect files s) = []) = (tasks s = [])"
  by (simp_all add: handleFileSelect_def Let_def showMessage_def showPreview_def
      assign_selectedFiles_def)

lemma removeFile_frame:
  "uploadInProgress (removeFile i s) = uploadInProgress s"
  "upload_log (removeFile i s) = upload_log s"
  "length (tasks (removeFile i s)) = length (tasks s)"
  "(tasks (removeFile i s) = []) = (tasks s = [])"
  by (simp_all add: removeFile_def showPreview_def)

lemma flag_invariant_handleUpload:
  assumes "flag_invariant s"
  shows "flag_invariant (handleUpload s)"
proof (cases "selectedFiles s")
  case Nil
  then show ?thesis using assms
    by (simp add: handleUpload_def showMessage_def flag_invariant_def)
next
  case (Cons f rest)
  show ?thesis
  proof (cases "uploadInProgress s")
    case True
    then show ?thesis using assms Cons by (simp add: handleUpload_def)
  next
    case False
    then have "tasks s = []" using assms by (simp add: flag_invariant_def)
    then show ?thesis using assms Cons False
      by (simp add: handleUpload_def flag_invariant_def log_guarded_append flag_after_append)
  qed
qed

lemma flag_invariant_resume:
  assumes "flag_invariant s"
  shows "flag_invariant (resume_upload k outcome s)"
proof (cases "k < length (tasks s)")
  case False
  then show ?thesis using assms by (simp add: resume_upload_def)
next
  case True
  then obtain t where t: "tasks s = [t]" and k: "k = 0"
    using assms by (cases "tasks s") (auto simp add: flag_invariant_def)
  have flag: "uploadInProgress s" "flag_after False (upload_log s)"
    "log_guarded False (upload_log s)"
    using assms t by (simp_all add: flag_invariant_def)
  show ?thesis
  proof (cases "t_next t < length (t_array t)")
    case True
    have "resume_upload 0 outcome s =
           s\<lparr>tasks := [(tally outcome t)\<lparr>t_current := t_array t ! t_next t, t_next := Suc (t_next t)\<rparr>],
              upload_log := upload_log s @ [Request (request_for (t_title t) (t_array t ! t_next t))]\<rparr>"
      using t True by (rule resume_more_files)
    then show ?thesis
      using flag unfolding k
      by (simp add: flag_invariant_def log_guarded_append flag_after_append)
  next
    case False
    then have "resume_upload 0 outcome s = finish_upload (tally outcome t) (s\<lparr>tasks := []\<rparr>)"
      using t by (intro resume_last_file) simp_all
    then show ?thesis
      using flag unfolding k
      by (simp add: finish_upload_fields flag_invariant_def log_guarded_append flag_after_append)
  qed
qed

lemma flag_invariant_step:
  assumes "flag_invariant s"
  shows "flag_invariant (mm_step e s)"
proof (cases e)
  case (FilesChosen files)
  then show ?thesis using assms
    by (simp add: flag_invariant_def handleFileSelect_frame)
next
  case (RemoveClicked i)
  then show ?thesis using assms
    by (simp add: flag_invariant_def removeFile_frame)
next
  case (TitleTyped t)
  then show ?thesis using assms by (simp add: flag_invariant_def)
next
  case FormSubmitted
  then show ?thesis using assms by (simp add: flag_invariant_handleUpload)
next
  case (UploadSettled k outcome)
  then show ?thesis using assms by (simp add: flag_invariant_resume)
next
  case GalleryRefreshAsked
  then show ?thesis using assms by (simp add: flag_invariant_def debouncedGalleryRefresh_def)
qed

lemma reachable_flag_invariant: "mm_reachable s \<Longrightarrow> flag_invariant s"
proof (induction rule: mm_reachable.induct)
  case mm_init
  then show ?case by (simp add: flag_invariant_def new_manager_def)
next
  case (mm_next s e)
  from mm_next.IH show ?case by (rule flag_invariant_step)
qed

text \<open>The only step that clears a set flag is the settling of a run with no file left.\<close>

lemma flag_cleared_only_at_end:
  assumes "flag_invariant s" "uploadInProgress s" "\<not> uploadInProgress (mm_step e s)"
  shows "\<exists>t outcome. e = UploadSettled 0 outcome \<and> tasks s = [t]
           \<and> length (t_array t) \<le> t_next t \<and> tasks (mm_step e s) = []"
proof (cases e)
  case (FilesChosen files)
  then show ?thesis using assms by (simp add: handleFileSelect_frame)
next
  case (RemoveClicked i)
  then show ?thesis using assms by (simp add: removeFile_frame)
next
  case (TitleTyped t)
  then show ?thesis using assms by simp
next
  case FormSubmitted
  then show ?thesis using assms
    by (simp add: handleUpload_def showMessage_def split: list.splits)
next
  case (UploadSettled k outcome)
  obtain t where t: "tasks s = [t]"
    using assms(1,2) by (cases "tasks s") (auto simp add: flag_invariant_def)
  show ?thesis
  proof (cases "k = 0")
    case False
    then show ?thesis using assms t UploadSettled by (simp add: resume_upload_def)
  next
    case True
    show ?thesis
    proof (cases "t_next t < length (t_array t)")
      case more: True
      have "resume_upload 0 outcome s =
           s\<lparr>tasks := [(tally outcome t)\<lparr>t_current := t_array t ! t_next t, t_next := Suc (t_next t)\<rparr>],
              upload_log := upload_log s @ [Request (request_for (t_title t) (t_array t ! t_next t))]\<rparr>"
        using t more by (rule resume_more_files)
      then show ?thesis
        using assms UploadSettled True by simp
    next
      case False
      then have "resume_upload 0 outcome s = finish_upload (tally outcome t) (s\<lparr>tasks := []\<rparr>)"
        using t by (intro resume_last_file) simp_all
      then show ?thesis
        using False t UploadSettled True by (simp add: finish_upload_fields)
    qed
  qed
next
  case GalleryRefreshAsked
  then show ?thesis using assms by (simp add: debouncedGalleryRefresh_def)
qed

text \<open>
  What the flag does guard. In every state the manager can reach: while \<open>uploadInProgress\<close> is set,
  \<open>handleUpload\<close> logs no request and leaves the selection, the flag, the suspended
  run, the finished runs and the button as they are; the flag is set exactly while a
  run is suspended and at most one run is; in the log every request stands after the
  flag was set and before it is cleared; and a step clears the flag only by settling
  a request of the run when the run's iterator has come to the end of the array it
  iterates, after which no run is left.
\<close>

theorem upload_flag_guards_batch:
  assumes "mm_reachable s"
  shows "(uploadInProgress s \<longrightarrow>
            upload_log (handleUpload s) = upload_log s
          \<and> selectedFiles (handleUpload s) = selectedFiles s
          \<and> uploadInProgress (handleUpload s)
          \<and> tasks (handleUpload s) = tasks s
          \<and> completed (handleUpload s) = completed s
          \<and> upload_btn_disabled (handleUpload s) = upload_btn_disabled s
          \<and> upload_btn_html (handleUpload s) = upload_btn_html s)
       \<and> (uploadInProgress s = (tasks s \<noteq> []))
       \<and> length (tasks s) \<le> 1
       \<and> log_guarded False (upload_log s)
       \<and> flag_after False (upload_log s) = uploadInProgress s
       \<and> (uploadInProgress s \<and> \<not> uploadInProgress (mm_step e s) \<longrightarrow>
            (\<exists>t outcome. e = UploadSettled 0 outcome \<and> tasks s = [t]
               \<and> length (t_array t) \<le> t_next t \<and> tasks (mm_step e s) = []))"
proof -
  have inv: "flag_invariant s" using assms by (rule reachable_flag_invariant)
  have guard: "uploadInProgress s \<longrightarrow>
            upload_log (handleUpload s) = upload_log s
          \<and> selectedFiles (handleUpload s) = selectedFiles s
          \<and> uploadInProgress (handleUpload s)
          \<and> tasks (handleUpload s) = tasks s
          \<and> completed (handleUpload s) = completed s
          \<and> upload_btn_disabled (handleUpload s) = upload_btn_disabled s
          \<and> upload_btn_html (handleUpload s) = upload_btn_html s"
    by (simp add: handleUpload_def showMessage_def split: list.splits)
  have clear: "uploadInProgress s \<and> \<not> uploadInProgress (mm_step e s) \<longrightarrow>
            (\<exists>t outcome. e = UploadSettled 0 outcome \<and> tasks s = [t]
               \<and> length (t_array t) \<le> t_next t \<and> tasks (mm_step e s) = [])"
    using flag_cleared_only_at_end [OF inv] by blast
  from inv guard clear show ?thesis
    unfolding flag_invariant_def by blast
qed

definition uploading_first :: media_manager where
  "uploading_first =
     mm_step FormSubmitted (mm_step (FilesChosen [holiday_jpg, scan_pdf]) new_manager)"

definition uploading_second :: media_manager where
  "uploading_second = mm_step (UploadSettled 0 reply_success) uploading_first"

lemma uploading_first_tasks:
  "tasks uploading_first =
     [\<lparr>t_array = [holiday_jpg, scan_pdf], t_aliased = True, t_next = 1, t_current = holiday_jpg,
       t_title = [], t_successCount = 0, t_errorCount = 0, t_errors = [],
       t_originalBtnText = BtnIdle\<rparr>]"
  "uploadInProgress uploading_first"
  unfolding uploading_first_def two_selected_chosen
  by (simp_all add: handleUpload_def two_selected_def new_manager_def)

lemma uploading_second_tasks:
  "\<exists>t. tasks uploading_second = [t] \<and> t_next t = 2 \<and> t_array t = [holiday_jpg, scan_pdf]"
  "uploadInProgress uploading_second"
  unfolding uploading_second_def mm_step.simps
  using uploading_first_tasks
  by (simp_all add: resume_upload_def Let_def)

theorem upload_flag_guards_batch_witness:
  "mm_reachable uploading_second \<and> uploadInProgress uploading_second
   \<and> upload_log (handleUpload uploading_second) = upload_log uploading_second
   \<and> tasks (handleUpload uploading_second) = tasks uploading_second
   \<and> length (tasks uploading_second) \<le> 1
   \<and> \<not> uploadInProgress (mm_step (UploadSettled 0 reply_success) uploading_second)
   \<and> tasks (mm_step (UploadSettled 0 reply_success) uploading_second) = []"
proof -
  have r: "mm_reachable uploading_second"
    unfolding uploading_second_def uploading_first_def by (intro mm_next mm_init)
  have u: "uploadInProgress uploading_second" by (rule uploading_second_tasks(2))
  obtain t where t: "tasks uploading_second = [t]" "t_next t = 2"
    "t_array t = [holiday_jpg, scan_pdf]"
    using uploading_second_tasks(1) by blast
  have "resume_upload 0 reply_success uploading_second
          = finish_upload (tally reply_success t) (uploading_second\<lparr>tasks := []\<rparr>)"
    using t by (intro resume_last_file) simp_all
  then have c: "\<not> uploadInProgress (mm_step (UploadSettled 0 reply_success) uploading_second)"
    by (simp add: finish_upload_fields)
  show ?thesis
    using upload_flag_guards_batch [OF r, of "UploadSettled 0 reply_success"] r u c by blast
qed

text \<open>
  Claim C4 fails in its last part in the run \<open>removed_then_failed\<close>. The removal of
  \<open>Holiday.JPG\<close> while its request is awaited shortens the array the loop iterates to
  \<open>scan.pdf\<close> alone, the iterator's next index 1 is then past its end, and the run
  ends when the request settles: \<open>uploadInProgress\<close> is cleared although \<open>scan.pdf\<close>,
  the last file of the batch that was submitted, is still selected and was never
  requested.
\<close>

theorem upload_flag_cleared_with_file_pending:
  "selectedFiles (fold mm_step [FilesChosen [holiday_jpg, scan_pdf], FormSubmitted] new_manager)
     = [holiday_jpg, scan_pdf]
   \<and> uploadInProgress
       (fold mm_step [FilesChosen [holiday_jpg, scan_pdf], FormSubmitted, RemoveClicked 0] new_manager)
   \<and> \<not> uploadInProgress removed_then_failed
   \<and> upload_log removed_then_failed
       = [FlagSet, Request \<lparr>up_file = holiday_jpg, up_title = ''Holiday.JPG''\<rparr>, FlagCleared]
   \<and> selectedFiles removed_then_failed = [scan_pdf]
   \<and> tasks removed_then_failed = []
   \<and> map (\<lambda>t. (t_successCount t, t_errorCount t, t_errors t)) (completed removed_then_failed)
       = [(0, 1, [''Holiday.JPG: Failed to fetch''])]"
proof -
  let ?t0 = "\<lparr>t_array = [holiday_jpg, scan_pdf], t_aliased = True, t_next = 1,
               t_current = holiday_jpg, t_title = [], t_successCount = 0, t_errorCount = 0,
               t_errors = [], t_originalBtnText = BtnIdle\<rparr>"
  let ?s2 = "handleUpload two_selected"
  let ?s3 = "removeFile 0 ?s2"
  let ?t3 = "?t0\<lparr>t_array := [scan_pdf]\<rparr>"
  have failed: "\<not> replied_success fetch_failed" by (simp add: fetch_failed_def)
  have s2: "selectedFiles ?s2 = [holiday_jpg, scan_pdf]" "tasks ?s2 = [?t0]"
    "completed ?s2 = []" "uploadInProgress ?s2"
    "upload_log ?s2 = [FlagSet, Request (request_for [] holiday_jpg)]"
    by (simp_all add: handleUpload_def two_selected_def new_manager_def)
  have s3: "tasks ?s3 = [?t3]" "completed ?s3 = []" "uploadInProgress ?s3"
    "selectedFiles ?s3 = [scan_pdf]"
    "upload_log ?s3 = [FlagSet, Request (request_for [] holiday_jpg)]"
    using s2 by (simp_all add: removeFile_def showPreview_def splice1_def)
  have r4: "resume_upload 0 fetch_failed ?s3
              = finish_upload (tally fetch_failed ?t3) (?s3\<lparr>tasks := []\<rparr>)"
    using resume_last_file [of ?s3 ?t3 fetch_failed] s3(1) by simp
  have c: "t_successCount (tally fetch_failed ?t3) = 0"
    "t_errorCount (tally fetch_failed ?t3) = 1"
    "t_errors (tally fetch_failed ?t3) = [''Holiday.JPG: Failed to fetch'']"
    using failed by (simp_all add: tally_counts holiday_jpg_def fetch_failed_def)
  have e: "removed_then_failed = finish_upload (tally fetch_failed ?t3) (?s3\<lparr>tasks := []\<rparr>)"
    unfolding removed_then_failed_def using r4
    by (simp add: two_selected_chosen [unfolded mm_step.simps])
  have b: "selectedFiles (fold mm_step [FilesChosen [holiday_jpg, scan_pdf], FormSubmitted] new_manager)
     = [holiday_jpg, scan_pdf]"
    using s2(1) by (simp add: two_selected_chosen [unfolded mm_step.simps])
  have u: "uploadInProgress
       (fold mm_step [FilesChosen [holiday_jpg, scan_pdf], FormSubmitted, RemoveClicked 0] new_manager)"
    using s3(3) by (simp add: two_selected_chosen [unfolded mm_step.simps])
  have n: "\<not> uploadInProgress removed_then_failed"
    unfolding e by (simp add: finish_upload_fields)
  have l: "upload_log removed_then_failed
       = [FlagSet, Request \<lparr>up_file = holiday_jpg, up_title = ''Holiday.JPG''\<rparr>, FlagCleared]"
    unfolding e finish_upload_fields using s3(5) by (simp add: request_for_names)
  have f: "selectedFiles removed_then_failed = [scan_pdf]"
    unfolding e using c(1) s3(4) by (simp add: selectedFiles_finish_upload)
  have k: "tasks removed_then_failed = []"
    unfolding e by (simp add: finish_upload_fields)
  have d: "map (\<lambda>t. (t_successCount t, t_errorCount t, t_errors t)) (completed removed_then_failed)
       = [(0, 1, [''Holiday.JPG: Failed to fetch''])]"
    unfolding e finish_upload_fields using s3(2) c by simp
  from b u n l f k d show ?thesis by blast
qed

subsection \<open>Removing a file while an upload is in flight\<close>

text \<open>
  The loop of \<open>handleUpload\<close> iterates the array that \<open>removeFile\<close> splices. If the
  first file is removed from the preview while its upload is awaited, the file that was
  second moves to position 0 and the iterator, whose next index is 1, goes on with the
  file that was third: the request after the first is for the third file, and the
  second stays in the selection, passed over.
\<close>

theorem remove_during_upload_skips_file:
  assumes "tasks s = []" and "\<not> uploadInProgress s" and "selectedFiles s = a # b # c # rest"
  shows "upload_log (resume_upload 0 outcome (removeFile 0 (handleUpload s)))
           = upload_log s @ [FlagSet, Request (request_for (media_title s) a),
                             Request (request_for (media_title s) c)]
       \<and> selectedFiles (resume_upload 0 outcome (removeFile 0 (handleUpload s))) = b # c # rest"
proof -
  let ?t0 = "\<lparr>t_array = a # b # c # rest, t_aliased = True, t_next = 1, t_current = a,
               t_title = media_title s, t_successCount = 0, t_errorCount = 0,
               t_errors = [], t_originalBtnText = upload_btn_html s\<rparr>"
  let ?s1 = "removeFile 0 (handleUpload s)"
  have t1: "tasks ?s1 = [?t0\<lparr>t_array := b # c # rest\<rparr>]"
    using assms by (simp add: handleUpload_def removeFile_def showPreview_def splice1_def)
  have l1: "upload_log ?s1 = upload_log s @ [FlagSet, Request (request_for (media_title s) a)]"
    using assms by (simp add: handleUpload_def removeFile_def showPreview_def)
  have f1: "selectedFiles ?s1 = b # c # rest"
    using assms by (simp add: removeFile_def splice1_def)
  have "resume_upload 0 outcome ?s1 =
          ?s1\<lparr>tasks := [(tally outcome (?t0\<lparr>t_array := b # c # rest\<rparr>))
                          \<lparr>t_current := t_array (?t0\<lparr>t_array := b # c # rest\<rparr>)
                                           ! t_next (?t0\<lparr>t_array := b # c # rest\<rparr>),
                           t_next := Suc (t_next (?t0\<lparr>t_array := b # c # rest\<rparr>))\<rparr>],
               upload_log := upload_log ?s1 @
                 [Request (request_for (t_title (?t0\<lparr>t_array := b # c # rest\<rparr>))
                    (t_array (?t0\<lparr>t_array := b # c # rest\<rparr>)
                       ! t_next (?t0\<lparr>t_array := b # c # rest\<rparr>)))]\<rparr>"
    using t1 by (rule resume_more_files) simp
  then show ?thesis using l1 f1 by simp
qed

theorem remove_during_upload_skips_file_witness:
  "tasks three_selected = [] \<and> \<not> uploadInProgress three_selected
   \<and> selectedFiles three_selected = [holiday_jpg, scan_pdf, birthday_png]
   \<and> upload_log (resume_upload 0 reply_success (removeFile 0 (handleUpload three_selected)))
       = [FlagSet, Request (request_for [] holiday_jpg), Request (request_for [] birthday_png)]"
proof -
  have h: "tasks three_selected = []" "\<not> uploadInProgress three_selected"
    "selectedFiles three_selected = holiday_jpg # scan_pdf # birthday_png # []"
    by (simp_all add: three_selected_def new_manager_def)
  have v: "upload_log three_selected = []" "media_title three_selected = []"
    by (simp_all add: three_selected_def new_manager_def)
  show ?thesis
    using remove_during_upload_skips_file [OF h, of reply_success] h v by simp
qed

section \<open>export.js: editing a chapter of the biography preview\<close>

text \<open>
  The preview shows two versions, in the containers \<open>deepseek-chapters\<close> and
  \<open>claude-chapters\<close>. The chapter at position \<open>index\<close> of a version carries the id
  \<open>${model}-chapter-${index}\<close>; the model keys the chapter by the pair of version and
  position, which determines the id and is determined by it.

  \<open>displayVersion\<close> writes a text into the page through \<open>escapeHtml\<close> and
  \<open>innerHTML\<close>. The character references that \<open>escapeHtml\<close> produced read back as
  the characters they stand for, but the HTML parser first replaces every CR LF pair
  and every other CR of its input by LF, and then leaves out every U+0000 of a text in
  the page's body. \<open>textContent\<close>, which \<open>saveChapterEdit\<close> and \<open>cancelChapterEdit\<close>
  write, stores its argument as it is.
\<close>

fun normalize_newlines :: "string \<Rightarrow> string" where
  "normalize_newlines [] = []"
| "normalize_newlines [c] = (if c = CHR 0x0D then [CHR 0x0A] else [c])"
| "normalize_newlines (c # d # cs) =
     (if c = CHR 0x0D
      then (if d = CHR 0x0A then CHR 0x0A # normalize_newlines cs
            else CHR 0x0A # normalize_newlines (d # cs))
      else c # normalize_newlines (d # cs))"

text \<open>\<open>textContent\<close> of an element of the body whose \<open>innerHTML\<close> was \<open>escapeHtml(t)\<close>.\<close>

definition parsed_text :: "string \<Rightarrow> string" where
  "parsed_text t = filter (\<lambda>c. c \<noteq> CHR 0x00) (normalize_newlines t)"

datatype bio_model = Deepseek | Claude

type_synonym chapter_id = "bio_model \<times> nat"

text \<open>
  The content of a chapter's \<open>.chapter-narrative\<close> element: plain text, or the edit
  interface that \<open>editChapter\<close> writes into it, with the text inside the \<open>textarea\<close>
  element, the text area's current value and the text of the character counter.
\<close>

datatype narrative_node =
    PlainText string
  | EditArea (ta_text: string) (ta_value: string) (char_count: string)

definition lf_indent :: "nat \<Rightarrow> string" where
  "lf_indent n = CHR 0x0A # replicate n (CHR '' '')"

text \<open>
  \<open>textContent\<close> of the narrative element: for the edit interface, the text nodes of
  the template in document order.
\<close>

fun narrative_textContent :: "narrative_node \<Rightarrow> string" where
  "narrative_textContent (PlainText t) = t"
| "narrative_textContent (EditArea inner v counter) =
     lf_indent 8 @ lf_indent 12 @ inner @ lf_indent 12 @ lf_indent 16
     @ lf_indent 20 @ '' Save'' @ lf_indent 16 @ lf_indent 16
     @ lf_indent 20 @ '' Cancel'' @ lf_indent 16 @ lf_indent 16
     @ counter @ lf_indent 12 @ lf_indent 8 @ lf_indent 4"

text \<open>
  The text inside the \<open>textarea\<close> element after \<open>escapeHtml(t)\<close> was parsed there:
  the newlines are normalised and one line feed that directly follows the start tag is
  dropped. (Inside a text area the parser turns U+0000 into U+FFFD, a code unit beyond
  the ones modelled here; the text is kept as it is in that respect. No handler reads
  the text area's content but \<open>saveChapterEdit\<close>.)
\<close>

definition textarea_content :: "string \<Rightarrow> string" where
  "textarea_content t =
     (case normalize_newlines t of
        [] \<Rightarrow> []
      | c # cs \<Rightarrow> if c = CHR 0x0A then cs else c # cs)"

definition characters_label :: "string \<Rightarrow> string" where
  "characters_label t = nat_to_string (length t) @ '' characters''"

record chapter_el =
  ch_title :: string
  narrative :: narrative_node
  edit_btn_display :: string
  footer_display :: string
  footer_small :: string

text \<open>
  A chapter as the generator sends it, its title and its narrative both strings, after
  \<open>chapter.title || ...\<close> and \<open>chapter.narrative || ''\<close> (a missing one is the empty
  string).
\<close>

record chapter_data =
  c_title :: string
  c_narrative :: string

record biography =
  originalTexts :: "chapter_id \<rightharpoonup> string"
  hasUnsavedEdits :: bool
  chapters :: "bio_model \<Rightarrow> chapter_el list"
  unsaved_warning_display :: string

definition getChapter :: "biography \<Rightarrow> chapter_id \<Rightarrow> chapter_el option" where
  "getChapter s cid =
     (case cid of (model, index) \<Rightarrow>
        if index < length (chapters s model) then Some (chapters s model ! index) else None)"

definition setChapter :: "chapter_id \<Rightarrow> chapter_el \<Rightarrow> biography \<Rightarrow> biography" where
  "setChapter cid el s =
     (case cid of (model, index) \<Rightarrow>
        s\<lparr>chapters := (chapters s)(model := (chapters s model)[index := el])\<rparr>)"

definition updateUnsavedWarning :: "biography \<Rightarrow> biography" where
  "updateUnsavedWarning s =
     s\<lparr>unsaved_warning_display := (if hasUnsavedEdits s then ''block'' else ''none'')\<rparr>"

definition checkUnsavedEdits :: "biography \<Rightarrow> biography" where
  "checkUnsavedEdits s = updateUnsavedWarning (s\<lparr>hasUnsavedEdits := False\<rparr>)"

text \<open>
  \<open>displayVersion\<close>: for a non-empty chapter list, every chapter's narrative is stored
  under its id and the container is rebuilt; for an empty list the container shows a
  notice and the map is left alone.
\<close>

definition new_chapter_el :: "nat \<Rightarrow> chapter_data \<Rightarrow> chapter_el" where
  "new_chapter_el index ch =
     \<lparr>ch_title = parsed_text (if c_title ch \<noteq> [] then c_title ch
                              else ''Chapter '' @ nat_to_string (index + 1)),
      narrative = PlainText (parsed_text (c_narrative ch)),
      edit_btn_display = [],
      footer_display = [],
      footer_small = characters_label (c_narrative ch)\<rparr>"

definition store_narratives ::
  "bio_model \<Rightarrow> chapter_data list \<Rightarrow> (chapter_id \<rightharpoonup> string) \<Rightarrow> (chapter_id \<rightharpoonup> string)" where
  "store_narratives model chs ot =
     (\<lambda>cid. case cid of (m, index) \<Rightarrow>
        if m = model \<and> index < length chs then Some (c_narrative (chs ! index)) else ot cid)"

definition displayVersion :: "bio_model \<Rightarrow> chapter_data list \<Rightarrow> biography \<Rightarrow> biography" where
  "displayVersion model chs s =
     (if chs = [] then s\<lparr>chapters := (chapters s)(model := [])\<rparr>
      else s\<lparr>originalTexts := store_narratives model chs (originalTexts s),
             chapters := (chapters s)(model := map (\<lambda>(index, ch). new_chapter_el index ch)
                                                  (zip [0 ..< length chs] chs))\<rparr>)"

text \<open>
  \<open>displayBiographyPreview\<close> rebuilds the modal, so both containers start empty, and
  displays each version the reply has without an error.
\<close>

definition displayBiographyPreview ::
  "chapter_data list option \<Rightarrow> chapter_data list option \<Rightarrow> biography \<Rightarrow> biography" where
  "displayBiographyPreview deepseek claude s =
     (let s0 = s\<lparr>chapters := (\<lambda>_. [])\<rparr>;
          s1 = (case deepseek of None \<Rightarrow> s0 | Some chs \<Rightarrow> displayVersion Deepseek chs s0)
      in case claude of None \<Rightarrow> s1 | Some chs \<Rightarrow> displayVersion Claude chs s1)"

definition editChapter :: "bio_model \<Rightarrow> nat \<Rightarrow> biography \<Rightarrow> biography" where
  "editChapter model chapterIndex s =
     (case getChapter s (model, chapterIndex) of
        None \<Rightarrow> s
      | Some chapterEl \<Rightarrow>
          (let currentText = narrative_textContent (narrative chapterEl);
               texts = (case originalTexts s (model, chapterIndex) of
                          None \<Rightarrow> (originalTexts s)((model, chapterIndex) \<mapsto> currentText)
                        | Some saved \<Rightarrow>
                            if saved = []
                            then (originalTexts s)((model, chapterIndex) \<mapsto> currentText)
                            else originalTexts s)
           in setChapter (model, chapterIndex)
                (chapterEl\<lparr>narrative := EditArea (textarea_content currentText)
                                             (textarea_content currentText)
                                             (characters_label currentText),
                            edit_btn_display := ''none'',
                            footer_display := ''none''\<rparr>)
                (s\<lparr>originalTexts := texts\<rparr>)))"

text \<open>
  The \<open>input\<close> listener of the text area, for the user's change of its value to
  \<open>v\<close>; without an edit interface there is no text area to type into.
\<close>

definition textarea_input :: "bio_model \<Rightarrow> nat \<Rightarrow> string \<Rightarrow> biography \<Rightarrow> biography" where
  "textarea_input model chapterIndex v s =
     (case getChapter s (model, chapterIndex) of
        None \<Rightarrow> s
      | Some chapterEl \<Rightarrow>
          (case narrative chapterEl of
             PlainText t \<Rightarrow> s
           | EditArea inner old counter \<Rightarrow>
               updateUnsavedWarning
                 ((setChapter (model, chapterIndex)
                     (chapterEl\<lparr>narrative := EditArea inner v (characters_label v)\<rparr>) s)
                  \<lparr>hasUnsavedEdits := True\<rparr>)))"

definition saveChapterEdit :: "bio_model \<Rightarrow> nat \<Rightarrow> biography \<Rightarrow> biography" where
  "saveChapterEdit model chapterIndex s =
     (case getChapter s (model, chapterIndex) of
        None \<Rightarrow> s
      | Some chapterEl \<Rightarrow>
          (case narrative chapterEl of
             PlainText t \<Rightarrow> s
           | EditArea inner newText counter \<Rightarrow>
               (setChapter (model, chapterIndex)
                  (chapterEl\<lparr>narrative := PlainText newText,
                              edit_btn_display := ''block'',
                              footer_display := ''block'',
                              footer_small := characters_label newText\<rparr>) s)
               \<lparr>originalTexts := (originalTexts s)((model, chapterIndex) \<mapsto> newText)\<rparr>))"

definition cancelChapterEdit :: "bio_model \<Rightarrow> nat \<Rightarrow> biography \<Rightarrow> biography" where
  "cancelChapterEdit model chapterIndex s =
     (case getChapter s (model, chapterIndex) of
        None \<Rightarrow> s
      | Some chapterEl \<Rightarrow>
          (let originalText = (case originalTexts s (model, chapterIndex) of
                                 None \<Rightarrow> [] | Some saved \<Rightarrow> saved)
           in checkUnsavedEdits
                (setChapter (model, chapterIndex)
                   (chapterEl\<lparr>narrative := PlainText originalText,
                               edit_btn_display := ''block'',
                               footer_display := ''block'',
                               footer_small := characters_label originalText\<rparr>) s)))"

text \<open>
  \<open>closeBiographyPreview\<close> (once the user confirmed) and the start of
  \<open>generateBiography\<close> both empty the map; the latter also replaces the preview by
  the loading notice.
\<close>

definition closeBiographyPreview :: "biography \<Rightarrow> biography" where
  "closeBiographyPreview s = s\<lparr>hasUnsavedEdits := False, originalTexts := Map.empty\<rparr>"

definition generateBiography_start :: "biography \<Rightarrow> biography" where
  "generateBiography_start s =
     s\<lparr>hasUnsavedEdits := False, originalTexts := Map.empty, chapters := (\<lambda>_. [])\<rparr>"

definition new_biography :: biography where
  "new_biography = \<lparr>originalTexts = Map.empty, hasUnsavedEdits = False, chapters = (\<lambda>_. []),
     unsaved_warning_display = ''none''\<rparr>"

datatype bio_event =
    PreviewDisplayed "chapter_data list option" "chapter_data list option"
  | EditClicked bio_model nat
  | TextTyped bio_model nat string
  | SaveClicked bio_model nat
  | CancelClicked bio_model nat
  | PreviewClosed
  | GenerationStarted

fun bio_step :: "bio_event \<Rightarrow> biography \<Rightarrow> biography" where
  "bio_step (PreviewDisplayed d c) s = displayBiographyPreview d c s"
| "bio_step (EditClicked m i) s = editChapter m i s"
| "bio_step (TextTyped m i v) s = textarea_input m i v s"
| "bio_step (SaveClicked m i) s = saveChapterEdit m i s"
| "bio_step (CancelClicked m i) s = cancelChapterEdit m i s"
| "bio_step PreviewClosed s = closeBiographyPreview s"
| "bio_step GenerationStarted s = generateBiography_start s"

inductive bio_reachable :: "biography \<Rightarrow> bool" where
  bio_init: "bio_reachable new_biography"
| bio_next: "bio_reachable s \<Longrightarrow> bio_reachable (bio_step e s)"

text \<open>
  The invariant: a chapter shown as plain text shows the text stored for it, as it is
  or as the parser read it, unless nothing or the empty string is stored.
\<close>

definition shows_stored :: "biography \<Rightarrow> chapter_id \<Rightarrow> bool" where
  "shows_stored s cid =
     (case getChapter s cid of
        None \<Rightarrow> True
      | Some el \<Rightarrow>
          (case narrative el of
             EditArea inner v counter \<Rightarrow> True
           | PlainText t \<Rightarrow>
               (case originalTexts s cid of
                  None \<Rightarrow> True
                | Some saved \<Rightarrow> saved = [] \<or> t = saved \<or> t = parsed_text saved)))"

definition texts_consistent :: "biography \<Rightarrow> bool" where
  "texts_consistent s = (\<forall>cid. shows_stored s cid)"

lemma getChapter_setChapter:
  "getChapter (setChapter cid el s) cid' =
     (if cid' = cid \<and> getChapter s cid \<noteq> None then Some el else getChapter s cid')"
  by (cases cid; cases cid') (auto simp add: getChapter_def setChapter_def)

lemma originalTexts_setChapter [simp]: "originalTexts (setChapter cid el s) = originalTexts s"
  by (cases cid) (simp add: setChapter_def)

lemma getChapter_frame [simp]:
  "getChapter (s\<lparr>originalTexts := ot\<rparr>) cid = getChapter s cid"
  "getChapter (s\<lparr>hasUnsavedEdits := b\<rparr>) cid = getChapter s cid"
  "getChapter (updateUnsavedWarning s) cid = getChapter s cid"
  "getChapter (checkUnsavedEdits s) cid = getChapter s cid"
  by (cases cid; simp add: getChapter_def updateUnsavedWarning_def checkUnsavedEdits_def)+

lemma originalTexts_frame [simp]:
  "originalTexts (updateUnsavedWarning s) = originalTexts s"
  "originalTexts (checkUnsavedEdits s) = originalTexts s"
  by (simp_all add: updateUnsavedWarning_def checkUnsavedEdits_def)

text \<open>What each handler does to the chapter it is called for.\<close>

lemma editChapter_chapter:
  assumes "getChapter s (m, i) = Some el"
  shows "getChapter (editChapter m i s) (m, i) =
           Some (el\<lparr>narrative := EditArea (textarea_content (narrative_textContent (narrative el)))
                                         (textarea_content (narrative_textContent (narrative el)))
                                         (characters_label (narrative_textContent (narrative el))),
                     edit_btn_display := ''none'', footer_display := ''none''\<rparr>)"
  using assms by (simp add: editChapter_def Let_def getChapter_setChapter)

lemma editChapter_texts:
  assumes "getChapter s (m, i) = Some el"
  shows "originalTexts (editChapter m i s) (m, i) =
           Some (case originalTexts s (m, i) of
                   None \<Rightarrow> narrative_textContent (narrative el)
                 | Some saved \<Rightarrow> if saved = [] then narrative_textContent (narrative el) else saved)"
  using assms by (simp add: editChapter_def Let_def split: option.splits)

lemma editChapter_elsewhere:
  assumes "cid \<noteq> (m, i)"
  shows "getChapter (editChapter m i s) cid = getChapter s cid"
    and "originalTexts (editChapter m i s) cid = originalTexts s cid"
  using assms
  by (simp_all add: editChapter_def Let_def getChapter_setChapter split: option.splits)

lemma textarea_input_texts [simp]:
  "originalTexts (textarea_input m i v s) = originalTexts s"
  by (simp add: textarea_input_def split: option.splits narrative_node.splits)

lemma textarea_input_chapter:
  assumes "getChapter s (m, i) = Some el" "narrative el = EditArea inner old counter"
  shows "getChapter (textarea_input m i v s) (m, i) =
           Some (el\<lparr>narrative := EditArea inner v (characters_label v)\<rparr>)"
  using assms by (simp add: textarea_input_def getChapter_setChapter)

lemma textarea_input_elsewhere:
  assumes "cid \<noteq> (m, i)"
  shows "getChapter (textarea_input m i v s) cid = getChapter s cid"
  using assms
  by (simp add: textarea_input_def getChapter_setChapter split: option.splits narrative_node.splits)

lemma textarea_input_plain:
  assumes "getChapter s (m, i) = Some el" "narrative el = PlainText t"
  shows "textarea_input m i v s = s"
  using assms by (simp add: textarea_input_def)

lemma cancelChapterEdit_chapter:
  assumes "getChapter s (m, i) = Some el"
  shows "getChapter (cancelChapterEdit m i s) (m, i) =
           Some (el\<lparr>narrative := PlainText (case originalTexts s (m, i) of None \<Rightarrow> [] | Some saved \<Rightarrow> saved),
                     edit_btn_display := ''block'', footer_display := ''block'',
                     footer_small := characters_label
                        (case originalTexts s (m, i) of None \<Rightarrow> [] | Some saved \<Rightarrow> saved)\<rparr>)"
  using assms by (simp add: cancelChapterEdit_def Let_def getChapter_setChapter)

lemma cancelChapterEdit_texts [simp]:
  "originalTexts (cancelChapterEdit m i s) = originalTexts s"
  by (simp add: cancelChapterEdit_def Let_def split: option.splits)

lemma cancelChapterEdit_elsewhere:
  assumes "cid \<noteq> (m, i)"
  shows "getChapter (cancelChapterEdit m i s) cid = getChapter s cid"
  using assms
  by (simp add: cancelChapterEdit_def Let_def getChapter_setChapter split: option.splits)

lemma saveChapterEdit_elsewhere:
  assumes "cid \<noteq> (m, i)"
  shows "getChapter (saveChapterEdit m i s) cid = getChapter s cid"
    and "originalTexts (saveChapterEdit m i s) cid = originalTexts s cid"
  using assms
  by (simp_all add: saveChapterEdit_def getChapter_setChapter
      split: option.splits narrative_node.splits)

text \<open>Typing keeps the edit interface open and the stored texts as they are.\<close>

lemma typing_keeps_editing:
  assumes "getChapter s (m, i) = Some el" "narrative el = EditArea inner old counter"
  shows "originalTexts (fold (textarea_input m i) vs s) = originalTexts s
       \<and> (\<exists>el' v c. getChapter (fold (textarea_input m i) vs s) (m, i) = Some el'
              \<and> narrative el' = EditArea inner v c)"
  using assms
proof (induction vs arbitrary: s el old counter)
  case Nil
  then show ?case by simp
next
  case (Cons v vs)
  let ?s1 = "textarea_input m i v s"
  have g: "getChapter ?s1 (m, i) = Some (el\<lparr>narrative := EditArea inner v (characters_label v)\<rparr>)"
    using Cons.prems by (rule textarea_input_chapter)
  have n: "narrative (el\<lparr>narrative := EditArea inner v (characters_label v)\<rparr>)
             = EditArea inner v (characters_label v)"
    by simp
  from Cons.IH [OF g n] show ?case by simp
qed

lemma shows_stored_same:
  "getChapter s' cid = getChapter s cid \<Longrightarrow> originalTexts s' cid = originalTexts s cid
   \<Longrightarrow> shows_stored s' cid = shows_stored s cid"
  by (simp add: shows_stored_def cong: option.case_cong narrative_node.case_cong)

lemma consistent_editChapter:
  assumes "texts_consistent s"
  shows "texts_consistent (editChapter m i s)"
  unfolding texts_consistent_def
proof
  fix cid
  show "shows_stored (editChapter m i s) cid"
  proof (cases "cid = (m, i)")
    case False
    then have "shows_stored (editChapter m i s) cid = shows_stored s cid"
      by (intro shows_stored_same editChapter_elsewhere)
    then show ?thesis using assms unfolding texts_consistent_def by blast
  next
    case True
    show ?thesis
    proof (cases "getChapter s (m, i)")
      case None
      moreover have "shows_stored s (m, i)" using assms unfolding texts_consistent_def by blast
      ultimately show ?thesis using True
        by (simp add: editChapter_def)
    next
      case (Some el)
      then show ?thesis using True
        by (simp add: shows_stored_def editChapter_chapter)
    qed
  qed
qed

lemma consistent_textarea_input:
  assumes "texts_consistent s"
  shows "texts_consistent (textarea_input m i v s)"
  unfolding texts_consistent_def
proof
  fix cid
  show "shows_stored (textarea_input m i v s) cid"
  proof (cases "cid = (m, i)")
    case False
    then have "getChapter (textarea_input m i v s) cid = getChapter s cid"
      by (rule textarea_input_elsewhere)
    then have "shows_stored (textarea_input m i v s) cid = shows_stored s cid"
      by (rule shows_stored_same) simp
    then show ?thesis using assms unfolding texts_consistent_def by blast
  next
    case True
    show ?thesis
    proof (cases "getChapter s (m, i)")
      case None
      moreover have "shows_stored s (m, i)" using assms unfolding texts_consistent_def by blast
      ultimately show ?thesis using True
        by (simp add: textarea_input_def)
    next
      case (Some el)
      show ?thesis
      proof (cases "narrative el")
        case (PlainText t)
        moreover have "shows_stored s (m, i)" using assms unfolding texts_consistent_def by blast
        ultimately show ?thesis using Some True
          by (simp add: textarea_input_plain)
      next
        case (EditArea inner old counter)
        then show ?thesis using Some True
          by (simp add: shows_stored_def textarea_input_chapter)
      qed
    qed
  qed
qed

lemma consistent_saveChapterEdit:
  assumes "texts_consistent s"
  shows "texts_consistent (saveChapterEdit m i s)"
  unfolding texts_consistent_def
proof
  fix cid
  show "shows_stored (saveChapterEdit m i s) cid"
  proof (cases "cid = (m, i)")
    case False
    then have "shows_stored (saveChapterEdit m i s) cid = shows_stored s cid"
      by (intro shows_stored_same saveChapterEdit_elsewhere)
    then show ?thesis using assms unfolding texts_consistent_def by blast
  next
    case True
    have "shows_stored s (m, i)" using assms unfolding texts_consistent_def by blast
    then show ?thesis using True
      by (auto simp add: shows_stored_def saveChapterEdit_def getChapter_setChapter
          split: option.splits narrative_node.splits)
  qed
qed

lemma consistent_cancelChapterEdit:
  assumes "texts_consistent s"
  shows "texts_consistent (cancelChapterEdit m i s)"
  unfolding texts_consistent_def
proof
  fix cid
  show "shows_stored (cancelChapterEdit m i s) cid"
  proof (cases "cid = (m, i)")
    case False
    then have "getChapter (cancelChapterEdit m i s) cid = getChapter s cid"
      by (rule cancelChapterEdit_elsewhere)
    then have "shows_stored (cancelChapterEdit m i s) cid = shows_stored s cid"
      by (rule shows_stored_same) simp
    then show ?thesis using assms unfolding texts_consistent_def by blast
  next
    case True
    show ?thesis
    proof (cases "getChapter s (m, i)")
      case None
      moreover have "shows_stored s (m, i)" using assms unfolding texts_consistent_def by blast
      ultimately show ?thesis using True
        by (simp add: cancelChapterEdit_def)
    next
      case (Some el)
      then show ?thesis using True
        by (simp add: shows_stored_def cancelChapterEdit_chapter split: option.splits)
    qed
  qed
qed

lemma getChapter_displayVersion:
  "getChapter (displayVersion model chs s) (m, index) =
     (if m = model
      then (if index < length chs then Some (new_chapter_el index (chs ! index)) else None)
      else getChapter s (m, index))"
  by (auto simp add: displayVersion_def getChapter_def)

lemma originalTexts_displayVersion:
  "originalTexts (displayVersion model chs s) (m, index) =
     (if m = model \<and> index < length chs then Some (c_narrative (chs ! index))
      else originalTexts s (m, index))"
  by (auto simp add: displayVersion_def store_narratives_def)

lemma consistent_displayVersion:
  assumes "texts_consistent s"
  shows "texts_consistent (displayVersion model chs s)"
  unfolding texts_consistent_def
proof
  fix cid :: chapter_id
  obtain m index where cid: "cid = (m, index)" by (cases cid)
  have old: "shows_stored s (m, index)" using assms unfolding texts_consistent_def by blast
  show "shows_stored (displayVersion model chs s) cid"
    unfolding cid using old
    by (auto simp add: shows_stored_def getChapter_displayVersion originalTexts_displayVersion
        new_chapter_el_def split: option.splits narrative_node.splits)
qed

lemma consistent_no_chapters:
  "texts_consistent (s\<lparr>chapters := (\<lambda>_. [])\<rparr>)"
  by (simp add: texts_consistent_def shows_stored_def getChapter_def split: prod.splits)

lemma consistent_displayBiographyPreview:
  "texts_consistent (displayBiographyPreview d c s)"
  by (cases d; cases c)
     (simp_all add: displayBiographyPreview_def Let_def consistent_no_chapters
        consistent_displayVersion)

lemma consistent_step:
  assumes "texts_consistent s"
  shows "texts_consistent (bio_step e s)"
proof (cases e)
  case (PreviewDisplayed d c)
  then show ?thesis by (simp add: consistent_displayBiographyPreview)
next
  case (EditClicked m i)
  then show ?thesis using assms by (simp add: consistent_editChapter)
next
  case (TextTyped m i v)
  then show ?thesis using assms by (simp add: consistent_textarea_input)
next
  case (SaveClicked m i)
  then show ?thesis using assms by (simp add: consistent_saveChapterEdit)
next
  case (CancelClicked m i)
  then show ?thesis using assms by (simp add: consistent_cancelChapterEdit)
next
  case PreviewClosed
  then show ?thesis using assms
    by (simp add: closeBiographyPreview_def texts_consistent_def shows_stored_def getChapter_def
        split: prod.splits option.splits narrative_node.splits)
next
  case GenerationStarted
  then show ?thesis
    by (simp add: generateBiography_start_def texts_consistent_def shows_stored_def getChapter_def
        split: prod.splits)
qed

lemma reachable_consistent: "bio_reachable s \<Longrightarrow> texts_consistent s"
proof (induction rule: bio_reachable.induct)
  case bio_init
  then show ?case
    by (simp add: new_biography_def texts_consistent_def shows_stored_def getChapter_def
        split: prod.splits)
next
  case (bio_next s e)
  from bio_next.IH show ?case by (rule consistent_step)
qed

lemma normalize_newlines_no_cr:
  "CHR 0x0D \<notin> set t \<Longrightarrow> normalize_newlines t = t"
  by (induction t rule: normalize_newlines.induct) auto

lemma parsed_text_plain:
  "CHR 0x0D \<notin> set t \<Longrightarrow> CHR 0x00 \<notin> set t \<Longrightarrow> parsed_text t = t"
  by (auto simp add: parsed_text_def normalize_newlines_no_cr filter_id_conv)

definition chapter_crlf :: chapter_data where
  "chapter_crlf = \<lparr>c_title = ''Early years'', c_narrative = ''a'' @ [CHR 0x0D, CHR 0x0A] @ ''b''\<rparr>"

definition preview_crlf :: biography where
  "preview_crlf = bio_step (PreviewDisplayed (Some [chapter_crlf]) None) new_biography"

text \<open>
  Claim C6 as stated fails for a generated narrative that contains a carriage return:
  the preview shows it with CR LF read as LF, the map holds it as sent, and after
  \<open>editChapter\<close> and \<open>cancelChapterEdit\<close> the chapter shows the text as sent, which
  is not the text shown before.
\<close>

theorem edit_cancel_carriage_return_counterexample:
  "map_option narrative
     (getChapter (cancelChapterEdit Deepseek 0 (editChapter Deepseek 0 preview_crlf)) (Deepseek, 0))
     \<noteq> map_option narrative (getChapter preview_crlf (Deepseek, 0))"
proof -
  have g: "getChapter preview_crlf (Deepseek, 0) = Some (new_chapter_el 0 chapter_crlf)"
    by (simp add: preview_crlf_def displayBiographyPreview_def Let_def getChapter_displayVersion)
  have o: "originalTexts preview_crlf (Deepseek, 0) = Some (''a'' @ [CHR 0x0D, CHR 0x0A] @ ''b'')"
    by (simp add: preview_crlf_def displayBiographyPreview_def Let_def
        originalTexts_displayVersion chapter_crlf_def)
  have before: "narrative (new_chapter_el 0 chapter_crlf) = PlainText (''a'' @ [CHR 0x0A] @ ''b'')"
    by (simp add: new_chapter_el_def chapter_crlf_def parsed_text_def)
  have o1: "originalTexts (editChapter Deepseek 0 preview_crlf) (Deepseek, 0)
              = Some (''a'' @ [CHR 0x0D, CHR 0x0A] @ ''b'')"
    by (simp add: editChapter_texts [OF g] o)
  from editChapter_chapter [OF g]
  obtain el1 where g1: "getChapter (editChapter Deepseek 0 preview_crlf) (Deepseek, 0) = Some el1"
    by blast
  have "map_option narrative
          (getChapter (cancelChapterEdit Deepseek 0 (editChapter Deepseek 0 preview_crlf)) (Deepseek, 0))
          = Some (PlainText (''a'' @ [CHR 0x0D, CHR 0x0A] @ ''b''))"
    by (simp add: cancelChapterEdit_chapter [OF g1] o1)
  then show ?thesis using g before by auto
qed

text \<open>
  Claim C6, amended. In every state the preview can reach, for a chapter of either
  version that is shown as plain text \<open>t\<close>: \<open>editChapter\<close>, then any sequence of changes
  of the text area, then \<open>cancelChapterEdit\<close> leaves the chapter showing exactly the
  text that \<open>originalTexts\<close> holds for the chapter once editing has begun. The text
  \<open>t\<close> shown before is that text, or that text as the HTML parser read it (CR LF and
  CR turned into LF, U+0000 left out); so if the stored text has no carriage return and
  no U+0000, the narrative is as it was before the edit.
\<close>

theorem edit_cancel_restores_narrative:
  assumes "bio_reachable s" and "getChapter s (m, i) = Some el" and "narrative el = PlainText t"
  shows "\<exists>saved el'.
           originalTexts (editChapter m i s) (m, i) = Some saved
         \<and> getChapter (cancelChapterEdit m i (fold (textarea_input m i) vs (editChapter m i s))) (m, i)
             = Some el'
         \<and> narrative el' = PlainText saved
         \<and> (t = saved \<or> t = parsed_text saved)
         \<and> (CHR 0x0D \<notin> set saved \<and> CHR 0x00 \<notin> set saved \<longrightarrow> t = saved)
         \<and> ch_title el' = ch_title el"
proof -
  let ?s1 = "editChapter m i s"
  let ?s2 = "fold (textarea_input m i) vs ?s1"
  let ?el1 = "el\<lparr>narrative := EditArea (textarea_content (narrative_textContent (narrative el)))
                                      (textarea_content (narrative_textContent (narrative el)))
                                      (characters_label (narrative_textContent (narrative el))),
                  edit_btn_display := ''none'', footer_display := ''none''\<rparr>"
  have "shows_stored s (m, i)"
    using reachable_consistent [OF assms(1)] unfolding texts_consistent_def by blast
  then have stored: "originalTexts s (m, i) = None \<or> originalTexts s (m, i) = Some []
      \<or> originalTexts s (m, i) = Some t
      \<or> (\<exists>raw. raw \<noteq> [] \<and> originalTexts s (m, i) = Some raw \<and> t = parsed_text raw)"
    using assms(2,3) by (auto simp add: shows_stored_def split: option.splits)
  then obtain saved where saved: "originalTexts ?s1 (m, i) = Some saved"
    and shown: "t = saved \<or> t = parsed_text saved"
    using assms(3) by (auto simp add: editChapter_texts [OF assms(2)])
  have plain: "CHR 0x0D \<notin> set saved \<and> CHR 0x00 \<notin> set saved \<longrightarrow> t = saved"
    using shown by (auto simp add: parsed_text_plain)
  have g1: "getChapter ?s1 (m, i) = Some ?el1" using assms(2) by (rule editChapter_chapter)
  have n1: "narrative ?el1 = EditArea (textarea_content (narrative_textContent (narrative el)))
                                      (textarea_content (narrative_textContent (narrative el)))
                                      (characters_label (narrative_textContent (narrative el)))"
    by simp
  from typing_keeps_editing [OF g1 n1, of vs]
  obtain el2 where t2: "originalTexts ?s2 = originalTexts ?s1"
    and g2: "getChapter ?s2 (m, i) = Some el2"
    by blast
  have title2: "ch_title el2 = ch_title el"
  proof -
    have "\<And>s el. getChapter s (m, i) = Some el \<Longrightarrow>
            \<exists>el'. getChapter (fold (textarea_input m i) vs s) (m, i) = Some el'
                 \<and> ch_title el' = ch_title el"
    proof (induction vs)
      case Nil
      then show ?case by simp
    next
      case (Cons v vs)
      show ?case
      proof (cases "narrative el")
        case (PlainText t)
        then have "textarea_input m i v s = s" using Cons.prems by (simp add: textarea_input_plain)
        then show ?thesis using Cons.IH [OF Cons.prems] by simp
      next
        case (EditArea inner old counter)
        from textarea_input_chapter [OF Cons.prems this, of v]
        have "getChapter (textarea_input m i v s) (m, i)
                = Some (el\<lparr>narrative := EditArea inner v (characters_label v)\<rparr>)" .
        from Cons.IH [OF this] show ?thesis by simp
      qed
    qed
    from this [OF g1] g2 show ?thesis by simp
  qed
  have g3: "getChapter (cancelChapterEdit m i ?s2) (m, i) =
           Some (el2\<lparr>narrative := PlainText saved,
                     edit_btn_display := ''block'', footer_display := ''block'',
                     footer_small := characters_label saved\<rparr>)"
    using cancelChapterEdit_chapter [OF g2] t2 saved by simp
  show ?thesis using saved shown plain g3 title2 by simp
qed

definition chapter_one :: chapter_data where
  "chapter_one = \<lparr>c_title = ''Early years'', c_narrative = ''Born in 1955.''\<rparr>"

definition preview_shown :: biography where
  "preview_shown = bio_step (PreviewDisplayed (Some [chapter_one]) None) new_biography"

theorem edit_cancel_restores_narrative_witness:
  "bio_reachable preview_shown
   \<and> getChapter preview_shown (Deepseek, 0) = Some (new_chapter_el 0 chapter_one)
   \<and> narrative (new_chapter_el 0 chapter_one) = PlainText ''Born in 1955.''
   \<and> originalTexts (editChapter Deepseek 0 preview_shown) (Deepseek, 0) = Some ''Born in 1955.''
   \<and> CHR 0x0D \<notin> set ''Born in 1955.'' \<and> CHR 0x00 \<notin> set ''Born in 1955.''
   \<and> (\<exists>el'. getChapter
               (cancelChapterEdit Deepseek 0
                  (fold (textarea_input Deepseek 0) [''Born'', ''Born in 1956!'']
                     (editChapter Deepseek 0 preview_shown)))
               (Deepseek, 0) = Some el'
           \<and> narrative el' = PlainText ''Born in 1955.'')"
proof -
  have r: "bio_reachable preview_shown"
    unfolding preview_shown_def by (intro bio_next bio_init)
  have g: "getChapter preview_shown (Deepseek, 0) = Some (new_chapter_el 0 chapter_one)"
    by (simp add: preview_shown_def displayBiographyPreview_def Let_def getChapter_displayVersion)
  have p: "parsed_text ''Born in 1955.'' = ''Born in 1955.''"
    by (rule parsed_text_plain) simp_all
  have n: "narrative (new_chapter_el 0 chapter_one) = PlainText ''Born in 1955.''"
    by (simp add: new_chapter_el_def chapter_one_def p)
  have o: "originalTexts preview_shown (Deepseek, 0) = Some ''Born in 1955.''"
    by (simp add: preview_shown_def displayBiographyPreview_def Let_def
        originalTexts_displayVersion chapter_one_def)
  have o1: "originalTexts (editChapter Deepseek 0 preview_shown) (Deepseek, 0)
              = Some ''Born in 1955.''"
    by (simp add: editChapter_texts [OF g] o)
  have c: "CHR 0x0D \<notin> set ''Born in 1955.''" "CHR 0x00 \<notin> set ''Born in 1955.''"
    by simp_all
  from edit_cancel_restores_narrative [OF r g n, of "[''Born'', ''Born in 1956!'']"] r g n o1 c
  show ?thesis by auto
qed

section \<open>The memory_media table\<close>

text \<open>
  The migration declares the table: a surrogate key \<open>id\<close> (\<open>AUTOINCREMENT\<close>), the two
  references \<open>memory_id\<close> and \<open>media_id\<close> (\<open>NOT NULL\<close>, \<open>FOREIGN KEY ... ON DELETE
  CASCADE\<close>), \<open>display_order\<close>, and \<open>UNIQUE(memory_id, media_id)\<close>. The parent tables
  are known here only by the ids of their rows.
\<close>

record memory_media_row =
  row_id :: nat
  row_memory_id :: nat
  row_media_id :: nat
  display_order :: int

record database =
  memories :: "nat set"
  media_rows :: "nat set"
  memory_media :: "memory_media_row list"
  next_row_id :: nat

datatype db_error = ForeignKeyViolation | UniqueViolation

text \<open>
  Modelled from the spec: the statements that change the table are issued by the
  backend behind \<open>/api/memories/{id}/media/{media_id}\<close> and executed by the database
  engine; neither is in the repository. \<open>link\<close> is the insertion of a row ("created
  when a user links a photo to a memory"), refused when a reference has no parent row
  or the pair is already linked ("a given (memory, media) pair may be linked at most
  once"), as the declared constraints say.
\<close>

definition link :: "nat \<Rightarrow> nat \<Rightarrow> int \<Rightarrow> database \<Rightarrow> db_error + database" where
  "link mem_ref med_ref ord db =
     (if mem_ref \<notin> memories db \<or> med_ref \<notin> media_rows db then Inl ForeignKeyViolation
      else if list_ex (\<lambda>r. row_memory_id r = mem_ref \<and> row_media_id r = med_ref) (memory_media db)
      then Inl UniqueViolation
      else Inr (db\<lparr>memory_media := memory_media db @
                       [\<lparr>row_id = next_row_id db, row_memory_id = mem_ref,
                         row_media_id = med_ref, display_order = ord\<rparr>],
                     next_row_id := Suc (next_row_id db)\<rparr>))"

text \<open>
  Modelled from the spec: \<open>unlink\<close> deletes the row of one pair ("deleted individually
  (unlink)").
\<close>

definition unlink :: "nat \<Rightarrow> nat \<Rightarrow> database \<Rightarrow> database" where
  "unlink mem_ref med_ref db =
     db\<lparr>memory_media :=
          filter (\<lambda>r. \<not> (row_memory_id r = mem_ref \<and> row_media_id r = med_ref)) (memory_media db)\<rparr>"

text \<open>
  Modelled from the spec: deleting a parent row deletes the rows that reference it
  ("cascade-deleted with their parents", "deleted ... transitively (parent
  memory/media deletion)").
\<close>

definition delete_memory :: "nat \<Rightarrow> database \<Rightarrow> database" where
  "delete_memory mem_ref db =
     db\<lparr>memories := memories db - {mem_ref},
        memory_media := filter (\<lambda>r. row_memory_id r \<noteq> mem_ref) (memory_media db)\<rparr>"

text \<open>
  Modelled from the spec: the same for the deletion of a media row, the parent of the
  second reference ("cascade-deleted with their parents").
\<close>

definition delete_media :: "nat \<Rightarrow> database \<Rightarrow> database" where
  "delete_media med_ref db =
     db\<lparr>media_rows := media_rows db - {med_ref},
        memory_media := filter (\<lambda>r. row_media_id r \<noteq> med_ref) (memory_media db)\<rparr>"

text \<open>
  Modelled from the spec: the backend creates the rows of \<open>memories\<close>, an
  "externally-defined" entity of which only the ids matter here.
\<close>

definition add_memory :: "nat \<Rightarrow> database \<Rightarrow> database" where
  "add_memory mem_ref db = db\<lparr>memories := insert mem_ref (memories db)\<rparr>"

text \<open>
  Modelled from the spec: the backend creates the rows of \<open>media\<close>, the other
  "externally-defined" entity.
\<close>

definition add_media :: "nat \<Rightarrow> database \<Rightarrow> database" where
  "add_media med_ref db = db\<lparr>media_rows := insert med_ref (media_rows db)\<rparr>"

text \<open>
  Modelled from the spec: a reordering action rewrites \<open>display_order\<close> of a pair's
  row ("mutated via reordering actions").
\<close>

definition set_display_order :: "nat \<Rightarrow> nat \<Rightarrow> int \<Rightarrow> database \<Rightarrow> database" where
  "set_display_order mem_ref med_ref ord db =
     db\<lparr>memory_media :=
          map (\<lambda>r. if row_memory_id r = mem_ref \<and> row_media_id r = med_ref
                    then r\<lparr>display_order := ord\<rparr> else r) (memory_media db)\<rparr>"

definition empty_database :: database where
  "empty_database = \<lparr>memories = {}, media_rows = {}, memory_media = [], next_row_id = 1\<rparr>"

datatype db_event =
    AddMemory nat
  | AddMedia nat
  | Link nat nat int
  | Unlink nat nat
  | Reorder nat nat int
  | DeleteMemory nat
  | DeleteMedia nat

text \<open>A refused insertion leaves the database as it was.\<close>

fun db_step :: "db_event \<Rightarrow> database \<Rightarrow> database" where
  "db_step (AddMemory m) db = add_memory m db"
| "db_step (AddMedia p) db = add_media p db"
| "db_step (Link m p ord) db = (case link m p ord db of Inl e \<Rightarrow> db | Inr db' \<Rightarrow> db')"
| "db_step (Unlink m p) db = unlink m p db"
| "db_step (Reorder m p ord) db = set_display_order m p ord db"
| "db_step (DeleteMemory m) db = delete_memory m db"
| "db_step (DeleteMedia p) db = delete_media p db"

inductive db_reachable :: "database \<Rightarrow> bool" where
  db_init: "db_reachable empty_database"
| db_next: "db_reachable db \<Longrightarrow> db_reachable (db_step e db)"

definition pair_of :: "memory_media_row \<Rightarrow> nat \<times> nat" where
  "pair_of r = (row_memory_id r, row_media_id r)"

definition pairs_unique :: "database \<Rightarrow> bool" where
  "pairs_unique db = distinct (map pair_of (memory_media db))"

definition references_exist :: "database \<Rightarrow> bool" where
  "references_exist db =
     list_all (\<lambda>r. row_memory_id r \<in> memories db \<and> row_media_id r \<in> media_rows db) (memory_media db)"

definition table_invariant :: "database \<Rightarrow> bool" where
  "table_invariant db = (pairs_unique db \<and> references_exist db)"

lemma pairs_reorder:
  "map (pair_of \<circ> (\<lambda>r. if row_memory_id r = m \<and> row_media_id r = p
                           then r\<lparr>display_order := ord\<rparr> else r)) rows
     = map pair_of rows"
  by (induction rows) (simp_all add: pair_of_def)

lemma invariant_link:
  assumes "table_invariant db" "link m p ord db = Inr db'"
  shows "table_invariant db'"
proof -
  have fk: "m \<in> memories db" "p \<in> media_rows db"
    and fresh: "\<not> list_ex (\<lambda>r. row_memory_id r = m \<and> row_media_id r = p) (memory_media db)"
    and db': "db' = db\<lparr>memory_media := memory_media db @
                       [\<lparr>row_id = next_row_id db, row_memory_id = m,
                         row_media_id = p, display_order = ord\<rparr>],
                     next_row_id := Suc (next_row_id db)\<rparr>"
    using assms(2) by (auto simp add: link_def split: if_splits)
  have "(m, p) \<notin> set (map pair_of (memory_media db))"
    using fresh by (auto simp add: list_ex_iff pair_of_def)
  then show ?thesis
    using assms(1) fk unfolding db'
    by (simp add: table_invariant_def pairs_unique_def references_exist_def pair_of_def)
qed

lemma invariant_step:
  assumes "table_invariant db"
  shows "table_invariant (db_step e db)"
proof (cases e)
  case (AddMemory m)
  then show ?thesis using assms
    by (auto simp add: table_invariant_def pairs_unique_def references_exist_def add_memory_def
        list_all_iff)
next
  case (AddMedia p)
  then show ?thesis using assms
    by (auto simp add: table_invariant_def pairs_unique_def references_exist_def add_media_def
        list_all_iff)
next
  case (Link m p ord)
  then show ?thesis using assms invariant_link [of db m p ord]
    by (cases "link m p ord db") simp_all
next
  case (Unlink m p)
  then show ?thesis using assms
    by (auto simp add: table_invariant_def pairs_unique_def references_exist_def unlink_def
        list_all_iff distinct_map_filter)
next
  case (Reorder m p ord)
  then show ?thesis using assms
    by (auto simp add: table_invariant_def pairs_unique_def references_exist_def
        set_display_order_def list_all_iff pairs_reorder)
next
  case (DeleteMemory m)
  then show ?thesis using assms
    by (auto simp add: table_invariant_def pairs_unique_def references_exist_def delete_memory_def
        list_all_iff distinct_map_filter)
next
  case (DeleteMedia p)
  then show ?thesis using assms
    by (auto simp add: table_invariant_def pairs_unique_def references_exist_def delete_media_def
        list_all_iff distinct_map_filter)
qed

lemma reachable_invariant: "db_reachable db \<Longrightarrow> table_invariant db"
proof (induction rule: db_reachable.induct)
  case db_init
  then show ?case
    by (simp add: table_invariant_def pairs_unique_def references_exist_def empty_database_def)
next
  case (db_next db e)
  from db_next.IH show ?case by (rule invariant_step)
qed

text \<open>
  Claim C1. In every reachable state of the database no pair of memory and media has
  two rows in \<open>memory_media\<close>, and every row names a memory and a media item that
  exist; every operation (adding a parent, linking, unlinking, reordering, deleting a
  parent) leads to a state with the same two properties; a second link of a linked pair
  and a link to a missing parent are refused; and after the deletion of a memory or of
  a media item no row references it.
\<close>

theorem memory_media_invariant:
  assumes "db_reachable db"
  shows "pairs_unique db \<and> references_exist db
       \<and> pairs_unique (db_step e db) \<and> references_exist (db_step e db)
       \<and> ((m, p) \<in> set (map pair_of (memory_media db)) \<longrightarrow> link m p ord db = Inl UniqueViolation)
       \<and> (m \<notin> memories db \<or> p \<notin> media_rows db \<longrightarrow> link m p ord db = Inl ForeignKeyViolation)
       \<and> list_all (\<lambda>r. row_memory_id r \<noteq> m) (memory_media (delete_memory m db))
       \<and> m \<notin> memories (delete_memory m db)
       \<and> list_all (\<lambda>r. row_media_id r \<noteq> p) (memory_media (delete_media p db))
       \<and> p \<notin> media_rows (delete_media p db)"
proof -
  have inv: "table_invariant db" using assms by (rule reachable_invariant)
  then have inv': "table_invariant (db_step e db)" by (rule invariant_step)
  have refs: "list_all (\<lambda>r. row_memory_id r \<in> memories db \<and> row_media_id r \<in> media_rows db)
                (memory_media db)"
    using inv by (simp add: table_invariant_def references_exist_def)
  have dup: "(m, p) \<in> set (map pair_of (memory_media db)) \<longrightarrow> link m p ord db = Inl UniqueViolation"
  proof
    assume "(m, p) \<in> set (map pair_of (memory_media db))"
    then obtain r where r: "r \<in> set (memory_media db)" "row_memory_id r = m" "row_media_id r = p"
      by (auto simp add: pair_of_def)
    then have "m \<in> memories db" "p \<in> media_rows db"
      using refs by (auto simp add: list_all_iff)
    moreover have "list_ex (\<lambda>r. row_memory_id r = m \<and> row_media_id r = p) (memory_media db)"
      using r by (auto simp add: list_ex_iff)
    ultimately show "link m p ord db = Inl UniqueViolation"
      by (simp add: link_def)
  qed
  have fk: "m \<notin> memories db \<or> p \<notin> media_rows db \<longrightarrow> link m p ord db = Inl ForeignKeyViolation"
    by (simp add: link_def)
  have del1: "list_all (\<lambda>r. row_memory_id r \<noteq> m) (memory_media (delete_memory m db))"
    "m \<notin> memories (delete_memory m db)"
    by (simp_all add: delete_memory_def list_all_iff)
  have del2: "list_all (\<lambda>r. row_media_id r \<noteq> p) (memory_media (delete_media p db))"
    "p \<notin> media_rows (delete_media p db)"
    by (simp_all add: delete_media_def list_all_iff)
  from inv inv' dup fk del1 del2 show ?thesis
    unfolding table_invariant_def by blast
qed

definition linked_once :: database where
  "linked_once = db_step (Link 1 5 0) (db_step (AddMedia 5) (db_step (AddMemory 1) empty_database))"

theorem memory_media_invariant_witness:
  "db_reachable linked_once
   \<and> memory_media linked_once = [\<lparr>row_id = 1, row_memory_id = 1, row_media_id = 5, display_order = 0\<rparr>]
   \<and> (1, 5) \<in> set (map pair_of (memory_media linked_once))
   \<and> link 1 5 3 linked_once = Inl UniqueViolation
   \<and> link 2 5 0 linked_once = Inl ForeignKeyViolation
   \<and> memory_media (delete_memory 1 linked_once) = []
   \<and> pairs_unique linked_once \<and> references_exist linked_once"
proof -
  have r: "db_reachable linked_once"
    unfolding linked_once_def by (intro db_next db_init)
  have v: "memory_media linked_once
             = [\<lparr>row_id = 1, row_memory_id = 1, row_media_id = 5, display_order = 0\<rparr>]"
    "memories linked_once = {1}" "media_rows linked_once = {5}"
    by (simp_all add: linked_once_def empty_database_def add_memory_def add_media_def link_def)
  have d: "memory_media (delete_memory 1 linked_once) = []"
    by (simp add: delete_memory_def v)
  have p: "(1, 5) \<in> set (map pair_of (memory_media linked_once))"
    by (simp add: v pair_of_def)
  have n: "2 \<notin> memories linked_once \<or> 5 \<notin> media_rows linked_once"
    by (simp add: v)
  show ?thesis
    using memory_media_invariant [OF r, of "DeleteMemory 1" 1 5 3]
          memory_media_invariant [OF r, of "DeleteMemory 1" 2 5 0] r v(1) d p n
    by blast
qed

end
